theory Spec2Isabelle
  imports Main "HOL-Library.Word"
begin

unbundle bit_operations_syntax

section \<open>The receiver of PacketStreamer: pkg/streamer/receiver.go\<close>

text \<open>
  The receiver reads frames from a connection: a 4-byte magic, a 4-byte little-endian
  payload length, a 1-byte compression flag and the payload. The embedding follows
  \<^verbatim>\<open>receiver.go\<close> function by function: \<^verbatim>\<open>readDataFromSocket\<close>
  (the loop that fills a slice from the connection), \<^verbatim>\<open>readPkts\<close> (the
  per-connection loop that validates headers and publishes frames) and the part of
  \<^verbatim>\<open>processHost\<close> that handles one accepted connection.

  Go's \<^verbatim>\<open>int\<close> is taken to be 64 bits wide (the platforms the program is
  built for), so \<^verbatim>\<open>int(compressedDataLen)\<close> of a \<^verbatim>\<open>uint32\<close> is never
  negative.
\<close>

subsection \<open>Constants\<close>

type_synonym byte = "8 word"

definition compressFlagByteLen :: nat where
  "compressFlagByteLen = 1"

definition payloadMarkerLen :: nat where
  "payloadMarkerLen = 4"

definition maxNumPkts :: nat where
  "maxNumPkts = 100"

definition connTimeout :: nat where
  "connTimeout = 60"

definition hdrData :: "byte list" where
  "hdrData = [0xde, 0xef, 0xec, 0xe0]"

text \<open>\<^verbatim>\<open>totalHdrLen\<close> is a local of \<^verbatim>\<open>readPkts\<close> (line 66).\<close>

definition totalHdrLen :: nat where
  "totalHdrLen = length hdrData + payloadMarkerLen + compressFlagByteLen"

text \<open>
  Modelled from the spec: the constant \<^verbatim>\<open>kilobyte\<close>, which \<^verbatim>\<open>receiver.go\<close>
  uses and another file of package \<^verbatim>\<open>streamer\<close> declares. The spec (section 6)
  gives the maximum frame buffer size in kilobytes.
\<close>

definition kilobyte :: int where
  "kilobyte = 1024"

text \<open>
  The configuration (package \<^verbatim>\<open>config\<close>), reduced to the fields the receiver
  reads: \<^verbatim>\<open>config.CompressBlockSize\<close> and \<^verbatim>\<open>config.Auth.Enable\<close>.
\<close>

record config =
  CompressBlockSize :: int
  AuthEnable :: bool

text \<open>
  \<^verbatim>\<open>config.CompressBlockSize * kilobyte\<close>, in 64-bit two's complement as Go
  computes it (lines 65 and 86).
\<close>

definition maxFrameBytes :: "config \<Rightarrow> int" where
  "maxFrameBytes cfg = signed_take_bit 63 (CompressBlockSize cfg * kilobyte)"

subsection \<open>The connection\<close>

text \<open>
  What \<^verbatim>\<open>hostConn.Read\<close> can return is one of: no error, \<^verbatim>\<open>io.EOF\<close>, an
  error for which \<^verbatim>\<open>os.IsTimeout\<close> holds, or any other error.
\<close>

datatype read_err = EOF | Timeout | OtherErr

text \<open>
  A connection is the script of what its peer does: a list of events, each a chunk of
  bytes that arrives together with the error (if any) that the read reporting it returns.
  When the script is used up every further read returns \<open>at_end\<close> with no bytes
  (\<open>EOF\<close> for a peer that has closed, \<open>Timeout\<close> for a peer that stays silent).
  \<open>deadline_fails\<close> says whether \<^verbatim>\<open>SetReadDeadline\<close> returns an error on this
  connection, and \<open>close_calls\<close> counts the calls of \<^verbatim>\<open>Close\<close>.
\<close>

record conn =
  pending :: "(byte list \<times> read_err option) list"
  at_end :: read_err
  deadline_fails :: bool
  close_calls :: nat

text \<open>
  \<^verbatim>\<open>Read(p)\<close> with \<open>k = len(p)\<close>. A read into an empty slice returns
  \<^verbatim>\<open>0, nil\<close> at once. Otherwise the read takes the next chunk; a chunk longer than
  \<open>k\<close> fills the slice and leaves its remainder (and its error) for the next read.
\<close>

definition conn_Read :: "conn \<Rightarrow> nat \<Rightarrow> (byte list \<times> read_err option) \<times> conn" where
  "conn_Read c k =
     (if k = 0 then (([], None), c)
      else case pending c of
        [] \<Rightarrow> (([], Some (at_end c)), c)
      | ev # evs \<Rightarrow>
          if length (fst ev) \<le> k then (ev, c\<lparr>pending := evs\<rparr>)
          else ((take k (fst ev), None), c\<lparr>pending := (drop k (fst ev), snd ev) # evs\<rparr>))"

definition conn_Close :: "conn \<Rightarrow> conn" where
  "conn_Close c = c\<lparr>close_calls := close_calls c + 1\<rparr>"

text \<open>The bytes a script still holds, and a size that every productive read decreases.\<close>

definition stream_bytes :: "(byte list \<times> read_err option) list \<Rightarrow> byte list" where
  "stream_bytes evs = concat (map fst evs)"

definition stream_size :: "(byte list \<times> read_err option) list \<Rightarrow> nat" where
  "stream_size evs = sum_list (map (\<lambda>ev. Suc (length (fst ev))) evs)"

text \<open>A peer that sends chunks of bytes, each reported by a read without an error.\<close>

definition data_events :: "byte list list \<Rightarrow> (byte list \<times> read_err option) list" where
  "data_events chunks = map (\<lambda>ch. (ch, None)) chunks"

subsection \<open>Errors and log lines\<close>

text \<open>
  The three errors \<^verbatim>\<open>readDataFromSocket\<close> returns: the two it builds with
  \<^verbatim>\<open>fmt.Errorf\<close> (lines 40 and 43; \<^verbatim>\<open>os.IsTimeout\<close> is false of both) and
  the timeout error of the read itself, passed on (line 46).
\<close>

datatype sock_err = ClosedConnection read_err | ClosedAbruptly | ReadTimeout

definition IsTimeout :: "sock_err \<Rightarrow> bool" where
  "IsTimeout e = (e = ReadTimeout)"

datatype log_entry =
    LogDeadline
  | LogZeroBytesErr read_err
  | LogZeroBytesNoErr
  | LogUnableToRead sock_err
  | LogIllegalData
  | LogInvalidLength "32 word"
  | LogUncompressQueueFull
  | LogSizeQueueFull

subsection \<open>readDataFromSocket\<close>

text \<open>
  One pass of the loop of \<^verbatim>\<open>readDataFromSocket\<close> (lines 32 to 60); \<open>buf\<close> is
  the slice \<^verbatim>\<open>dataBuff\<close> the caller passed and \<open>totalBytesRead\<close> the counter.
  The read writes its bytes into the slice from index \<open>totalBytesRead\<close> on. A pass
  either returns (the error or none, the slice, the connection, the log) or goes round
  again with the counter advanced. The counter never passes the length of the slice
  (lemma \<open>read_pass_Again\<close> below), so \<^verbatim>\<open>dataBuff[totalBytesRead:]\<close> is always
  in range and \<open>length buf - totalBytesRead\<close> is its length. When
  \<^verbatim>\<open>SetReadDeadline\<close> fails the pass only logs it (lines 34 to 37).
\<close>

datatype read_step =
    Return "sock_err option" "byte list" conn "log_entry list"
  | Again conn "byte list" nat "log_entry list"

definition read_pass :: "conn \<Rightarrow> byte list \<Rightarrow> nat \<Rightarrow> nat \<Rightarrow> log_entry list \<Rightarrow> read_step" where
  "read_pass c buf bytesToRead totalBytesRead lg =
     (let lg1 = (if deadline_fails c then lg @ [LogDeadline] else lg);
          r = conn_Read c (length buf - totalBytesRead);
          chunk = fst (fst r);
          readErr = snd (fst r);
          c1 = snd r;
          bytesRead = length chunk;
          buf1 = take totalBytesRead buf @ chunk @ drop (totalBytesRead + bytesRead) buf
      in if readErr \<noteq> None \<and> readErr \<noteq> Some EOF \<and> readErr \<noteq> Some Timeout
           then Return (Some (ClosedConnection (the readErr))) buf1 c1 lg1
         else if readErr = Some EOF \<and> totalBytesRead \<noteq> bytesToRead
           then Return (Some ClosedAbruptly) buf1 c1 lg1
         else if readErr = Some Timeout \<and> totalBytesRead \<noteq> bytesToRead
           then Return (Some ReadTimeout) buf1 c1 lg1
         else if bytesRead = 0 \<and> readErr \<noteq> None
           then Return None buf1 c1 (lg1 @ [LogZeroBytesErr (the readErr)])
         else if bytesRead = 0 \<and> readErr = None
           then Return None buf1 c1 (lg1 @ [LogZeroBytesNoErr])
         else if totalBytesRead + bytesRead = bytesToRead
           then Return None buf1 c1 lg1
         else Again c1 buf1 (totalBytesRead + bytesRead) lg1)"

function readLoop ::
  "conn \<Rightarrow> byte list \<Rightarrow> nat \<Rightarrow> nat \<Rightarrow> log_entry list
     \<Rightarrow> sock_err option \<times> byte list \<times> conn \<times> log_entry list" where
  "readLoop c buf bytesToRead totalBytesRead lg =
     (case read_pass c buf bytesToRead totalBytesRead lg of
        Return e buf1 c1 lg1 \<Rightarrow> (e, buf1, c1, lg1)
      | Again c1 buf1 totalBytesRead1 lg1 \<Rightarrow> readLoop c1 buf1 bytesToRead totalBytesRead1 lg1)"
  by pat_completeness auto

lemma conn_Read_size:
  "fst (fst (conn_Read c k)) \<noteq> [] \<Longrightarrow>
     stream_size (pending (snd (conn_Read c k))) < stream_size (pending c)"
  by (auto simp: conn_Read_def stream_size_def split: list.splits if_splits)

lemma read_pass_Again_size:
  "read_pass c buf bytesToRead totalBytesRead lg = Again c1 buf1 totalBytesRead1 lg1 \<Longrightarrow>
     stream_size (pending c1) < stream_size (pending c)"
  by (auto simp: read_pass_def Let_def conn_Read_size split: if_splits)

termination readLoop
  by (relation "measure (\<lambda>(c, buf, n, t, lg). stream_size (pending c))")
     (auto simp: read_pass_Again_size)

declare readLoop.simps [simp del]

text \<open>\<^verbatim>\<open>readDataFromSocket\<close> starts the loop with \<^verbatim>\<open>totalBytesRead := 0\<close> (line 30).\<close>

definition readDataFromSocket ::
  "conn \<Rightarrow> byte list \<Rightarrow> nat \<Rightarrow> log_entry list
     \<Rightarrow> sock_err option \<times> byte list \<times> conn \<times> log_entry list" where
  "readDataFromSocket hostConn buf bytesToRead lg = readLoop hostConn buf bytesToRead 0 lg"

subsection \<open>Channels\<close>

text \<open>
  A buffered Go channel: the items it holds (oldest first), its capacity, and the number
  of times \<^verbatim>\<open>close\<close> was called on it. The consumer of a channel runs in another
  goroutine; what it does to the channel is \<open>chan_recv\<close>.
\<close>

record 'a chan =
  items :: "'a list"
  capacity :: nat
  close_count :: nat

definition make_chan :: "nat \<Rightarrow> 'a chan" where
  "make_chan n = \<lparr>items = [], capacity = n, close_count = 0\<rparr>"

definition chan_close :: "'a chan \<Rightarrow> 'a chan" where
  "chan_close ch = ch\<lparr>close_count := close_count ch + 1\<rparr>"

definition chan_recv :: "'a chan \<Rightarrow> 'a chan" where
  "chan_recv ch = ch\<lparr>items := tl (items ch)\<rparr>"

text \<open>
  The idiom of lines 103 to 107 and 108 to 112:
  \<^verbatim>\<open>select { case ch <- x: default: log.Println("... queue is full. Discarding") }\<close>.
  The send is taken when the buffer has room; otherwise the default branch logs.
\<close>

definition send_or_discard ::
  "'a chan \<Rightarrow> 'a \<Rightarrow> log_entry \<Rightarrow> log_entry list \<Rightarrow> 'a chan \<times> log_entry list" where
  "send_or_discard ch x full_msg lg =
     (if length (items ch) < capacity ch then (ch\<lparr>items := items ch @ [x]\<rparr>, lg)
      else (ch, lg @ [full_msg]))"

text \<open>A producer and a consumer taking turns on one channel, in any order.\<close>

datatype 'a chan_op = Push 'a | Pop

fun run_ops :: "'a chan_op list \<Rightarrow> log_entry \<Rightarrow> 'a chan \<times> log_entry list \<Rightarrow> 'a chan \<times> log_entry list" where
  "run_ops [] full_msg st = st"
| "run_ops (Push x # ops) full_msg st = run_ops ops full_msg (send_or_discard (fst st) x full_msg (snd st))"
| "run_ops (Pop # ops) full_msg st = run_ops ops full_msg (chan_recv (fst st), snd st)"

subsection \<open>readPkts\<close>

record CompressData =
  Data :: "byte list"
  IsCompressed :: bool

text \<open>
  \<^verbatim>\<open>binary.LittleEndian.Uint32\<close>:
  \<^verbatim>\<open>uint32(b[0]) | uint32(b[1])<<8 | uint32(b[2])<<16 | uint32(b[3])<<24\<close>.
\<close>

definition Uint32 :: "byte list \<Rightarrow> 32 word" where
  "Uint32 b = ucast (b ! 0) OR push_bit 8 (ucast (b ! 1))
                OR push_bit 16 (ucast (b ! 2)) OR push_bit 24 (ucast (b ! 3))"

text \<open>
  Go's rule for \<^verbatim>\<open>s[lo:hi]\<close> and \<^verbatim>\<open>s[i]\<close> on a slice whose capacity is its
  length: the program panics unless these hold.
\<close>

definition slice_ok :: "nat \<Rightarrow> nat \<Rightarrow> 'a list \<Rightarrow> bool" where
  "slice_ok lo hi s = (lo \<le> hi \<and> hi \<le> length s)"

definition index_ok :: "nat \<Rightarrow> 'a list \<Rightarrow> bool" where
  "index_ok i s = (i < length s)"

text \<open>
  The two checks on the header, lines 78 to 91: the magic first, then the declared
  length against \<^verbatim>\<open>config.CompressBlockSize*kilobyte - totalHdrLen\<close>, compared as
  Go \<^verbatim>\<open>int\<close>s.
\<close>

datatype hdr_check = IllegalData | InvalidLength "32 word" | HeaderOK "32 word"

definition check_header :: "config \<Rightarrow> byte list \<Rightarrow> hdr_check" where
  "check_header cfg buf =
     (if take (length hdrData) buf \<noteq> hdrData then IllegalData
      else let compressedDataLen = Uint32 (drop (length hdrData) buf)
           in if uint compressedDataLen > maxFrameBytes cfg - int totalHdrLen
              then InvalidLength compressedDataLen
              else HeaderOK compressedDataLen)"

text \<open>The frame built at lines 99 to 102 from the buffer and the declared length.\<close>

definition mk_frame :: "byte list \<Rightarrow> nat \<Rightarrow> CompressData" where
  "mk_frame buf n =
     \<lparr>Data = take n (drop totalHdrLen buf),
      IsCompressed = (buf ! (length hdrData + payloadMarkerLen) \<noteq> 0)\<rparr>"

text \<open>What \<^verbatim>\<open>readPkts\<close> holds and acts on while it runs.\<close>

record pkts_state =
  clientConn :: conn
  dataBuff :: "byte list"
  pktUncompressChannel :: "CompressData chan"
  sizeChannel :: "nat chan"
  logs :: "log_entry list"

datatype step = Continue pkts_state | Stop pkts_state | Panic

text \<open>
  The three lines every terminating path ends with (74 to 76, 81 to 83, 88 to 90 and
  95 to 97): \<^verbatim>\<open>clientConn.Close(); close(pktUncompressChannel); return\<close>.
\<close>

definition close_and_return :: "pkts_state \<Rightarrow> conn \<Rightarrow> byte list \<Rightarrow> log_entry list \<Rightarrow> step" where
  "close_and_return s c buf lg =
     Stop (s\<lparr>clientConn := conn_Close c, dataBuff := buf,
             pktUncompressChannel := chan_close (pktUncompressChannel s), logs := lg\<rparr>)"

text \<open>
  One pass of the loop of \<^verbatim>\<open>readPkts\<close> (lines 68 to 113). The slices handed to
  \<^verbatim>\<open>readDataFromSocket\<close> share the array of \<^verbatim>\<open>dataBuff\<close>, so what a read
  wrote is put back into the buffer at the slice's place.
\<close>

definition readPkts_iter :: "config \<Rightarrow> pkts_state \<Rightarrow> step" where
  "readPkts_iter cfg s =
     (if \<not> slice_ok 0 totalHdrLen (dataBuff s) then Panic
      else
        let r1 = readDataFromSocket (clientConn s) (take totalHdrLen (dataBuff s)) totalHdrLen (logs s);
            err = fst r1;
            buf1 = fst (snd r1) @ drop totalHdrLen (dataBuff s);
            c1 = fst (snd (snd r1));
            lg1 = snd (snd (snd r1))
        in if err \<noteq> None
             then close_and_return s c1 buf1
                    (if IsTimeout (the err) then lg1 else lg1 @ [LogUnableToRead (the err)])
           else case check_header cfg buf1 of
             IllegalData \<Rightarrow> close_and_return s c1 buf1 (lg1 @ [LogIllegalData])
           | InvalidLength l \<Rightarrow> close_and_return s c1 buf1 (lg1 @ [LogInvalidLength l])
           | HeaderOK compressedDataLen \<Rightarrow>
               let n = unat compressedDataLen in
               if \<not> slice_ok totalHdrLen (totalHdrLen + n) buf1 then Panic
               else
                 let r2 = readDataFromSocket c1 (take n (drop totalHdrLen buf1)) n lg1;
                     err2 = fst r2;
                     buf2 = take totalHdrLen buf1 @ fst (snd r2) @ drop (totalHdrLen + n) buf1;
                     c2 = fst (snd (snd r2));
                     lg2 = snd (snd (snd r2))
                 in if err2 \<noteq> None
                      then close_and_return s c2 buf2 (lg2 @ [LogUnableToRead (the err2)])
                    else
                      let dataToUncompress = mk_frame buf2 n;
                          p1 = send_or_discard (pktUncompressChannel s) dataToUncompress
                                 LogUncompressQueueFull lg2;
                          p2 = send_or_discard (sizeChannel s) (totalHdrLen + n)
                                 LogSizeQueueFull (snd p1)
                      in Continue (s\<lparr>clientConn := c2, dataBuff := buf2,
                                      pktUncompressChannel := fst p1, sizeChannel := fst p2,
                                      logs := snd p2\<rparr>))"

subsection \<open>The loop of readPkts\<close>

text \<open>
  The loop goes on only after a pass whose read of the header returned no error, and such
  a read has taken something from the connection's script. The lemmas up to the
  definition of the loop say what a read leaves unchanged and what it uses up.
\<close>

lemma conn_Read_length: "length (fst (fst (conn_Read c k))) \<le> k"
  by (auto simp: conn_Read_def split: list.splits)

lemma conn_Read_frame:
  "close_calls (snd (conn_Read c k)) = close_calls c"
  "at_end (snd (conn_Read c k)) = at_end c"
  "deadline_fails (snd (conn_Read c k)) = deadline_fails c"
  by (auto simp: conn_Read_def split: list.splits)

lemma conn_Read_size_le:
  "stream_size (pending (snd (conn_Read c k))) \<le> stream_size (pending c)"
  by (auto simp: conn_Read_def stream_size_def split: list.splits)

lemma read_pass_Again:
  assumes "read_pass c buf n t lg = Again c1 buf1 t1 lg1" and "t \<le> length buf"
  shows "length buf1 = length buf" and "t1 \<le> length buf" and "t < t1"
    and "close_calls c1 = close_calls c" and "at_end c1 = at_end c"
    and "deadline_fails c1 = deadline_fails c"
  using assms conn_Read_length [of c "length buf - t"]
  by (auto simp: read_pass_def Let_def conn_Read_frame split: if_splits)

lemma read_pass_Return:
  assumes "read_pass c buf n t lg = Return e buf1 c1 lg1" and "t \<le> length buf"
  shows "length buf1 = length buf"
    and "close_calls c1 = close_calls c" and "at_end c1 = at_end c"
    and "deadline_fails c1 = deadline_fails c"
    and "stream_size (pending c1) \<le> stream_size (pending c)"
  using assms conn_Read_length [of c "length buf - t"]
  by (auto simp: read_pass_def Let_def conn_Read_frame conn_Read_size_le split: if_splits)

lemma readLoop_length:
  "t \<le> length buf \<Longrightarrow> length (fst (snd (readLoop c buf n t lg))) = length buf"
proof (induction c buf n t lg rule: readLoop.induct)
  case (1 c buf n t lg)
  show ?case
  proof (cases "read_pass c buf n t lg")
    case (Return e buf1 c1 lg1)
    then show ?thesis
      using read_pass_Return(1) [OF Return "1.prems"] by (simp add: readLoop.simps)
  next
    case (Again c1 buf1 t1 lg1)
    then show ?thesis
      using "1.IH" [OF Again] read_pass_Again(1,2) [OF Again "1.prems"]
      by (simp add: readLoop.simps)
  qed
qed

lemma readLoop_conn:
  "close_calls (fst (snd (snd (readLoop c buf n t lg)))) = close_calls c \<and>
   at_end (fst (snd (snd (readLoop c buf n t lg)))) = at_end c \<and>
   deadline_fails (fst (snd (snd (readLoop c buf n t lg)))) = deadline_fails c \<and>
   stream_size (pending (fst (snd (snd (readLoop c buf n t lg))))) \<le> stream_size (pending c)"
proof (induction c buf n t lg rule: readLoop.induct)
  case (1 c buf n t lg)
  show ?case
  proof (cases "read_pass c buf n t lg")
    case (Return e buf1 c1 lg1)
    then show ?thesis
      by (auto simp: readLoop.simps read_pass_def Let_def conn_Read_frame conn_Read_size_le split: if_splits)
  next
    case (Again c1 buf1 t1 lg1)
    have "close_calls c1 = close_calls c" "at_end c1 = at_end c" "deadline_fails c1 = deadline_fails c"
      using Again by (auto simp: read_pass_def Let_def conn_Read_frame split: if_splits)
    then show ?thesis
      using "1.IH" [OF Again] read_pass_Again_size [OF Again] Again
      by (simp add: readLoop.simps)
  qed
qed

lemma conn_Read_None_size:
  "0 < k \<Longrightarrow> snd (fst (conn_Read c k)) = None \<Longrightarrow>
     stream_size (pending (snd (conn_Read c k))) < stream_size (pending c)"
  by (auto simp: conn_Read_def stream_size_def split: list.splits if_splits)

lemma readLoop_success_size:
  assumes "t \<noteq> n" and "t < length buf" and "fst (readLoop c buf n t lg) = None"
  shows "stream_size (pending (fst (snd (snd (readLoop c buf n t lg))))) < stream_size (pending c)"
proof (cases "read_pass c buf n t lg")
  case (Return e buf1 c1 lg1)
  then show ?thesis
    using assms conn_Read_None_size [of "length buf - t" c] conn_Read_size [of c "length buf - t"]
    by (auto simp: readLoop.simps read_pass_def Let_def split: if_splits)
next
  case (Again c1 buf1 t1 lg1)
  then show ?thesis
    using read_pass_Again_size [OF Again] readLoop_conn [of c1 buf1 n t1 lg1]
    by (simp add: readLoop.simps)
qed

lemma totalHdrLen_eq: "totalHdrLen = 9"
  by (simp add: totalHdrLen_def hdrData_def payloadMarkerLen_def compressFlagByteLen_def)

lemma readPkts_iter_Continue_size:
  assumes "readPkts_iter cfg s = Continue s'"
  shows "stream_size (pending (clientConn s')) < stream_size (pending (clientConn s))"
proof -
  let ?r1 = "readDataFromSocket (clientConn s) (take totalHdrLen (dataBuff s)) totalHdrLen (logs s)"
  have ok: "totalHdrLen \<le> length (dataBuff s)"
    using assms by (auto simp: readPkts_iter_def slice_ok_def split: if_splits)
  have e1: "fst ?r1 = None"
    using assms by (auto simp: readPkts_iter_def Let_def close_and_return_def split: if_splits)
  have d1: "stream_size (pending (fst (snd (snd ?r1)))) < stream_size (pending (clientConn s))"
    unfolding readDataFromSocket_def
    by (rule readLoop_success_size) (use ok e1 in \<open>simp_all add: readDataFromSocket_def totalHdrLen_eq\<close>)
  show ?thesis
    using assms d1
    by (auto simp: readPkts_iter_def Let_def close_and_return_def readDataFromSocket_def
             split: if_splits hdr_check.splits
             intro: le_less_trans [OF conjunct2 [OF conjunct2 [OF conjunct2 [OF readLoop_conn]]]])
qed

text \<open>
  The loop of \<^verbatim>\<open>readPkts\<close>: passes until one returns or panics. It ends on every
  script, since every pass that goes on has taken something from the connection.
\<close>

datatype outcome = Returned pkts_state | Panicked

function readPkts_loop :: "config \<Rightarrow> pkts_state \<Rightarrow> outcome" where
  "readPkts_loop cfg s =
     (case readPkts_iter cfg s of
        Continue s' \<Rightarrow> readPkts_loop cfg s'
      | Stop s' \<Rightarrow> Returned s'
      | Panic \<Rightarrow> Panicked)"
  by pat_completeness auto

termination readPkts_loop
  by (relation "measure (\<lambda>(cfg, s). stream_size (pending (clientConn s)))")
     (auto simp: readPkts_iter_Continue_size)

declare readPkts_loop.simps [simp del]

text \<open>
  \<^verbatim>\<open>readPkts\<close> itself: the buffer is made first (line 65; \<^verbatim>\<open>make\<close> panics on a
  negative length), zeroed, and the loop entered.
\<close>

definition readPkts :: "conn \<Rightarrow> config \<Rightarrow> CompressData chan \<Rightarrow> nat chan \<Rightarrow> log_entry list \<Rightarrow> outcome" where
  "readPkts c cfg ch sz lg =
     (if maxFrameBytes cfg < 0 then Panicked
      else readPkts_loop cfg
             \<lparr>clientConn = c, dataBuff = replicate (nat (maxFrameBytes cfg)) 0,
              pktUncompressChannel = ch, sizeChannel = sz, logs = lg\<rparr>)"

text \<open>What a run of \<^verbatim>\<open>readPkts\<close> has done when it returned, read off its outcome.\<close>

definition transport_closes :: "outcome \<Rightarrow> nat" where
  "transport_closes r = (case r of Returned s \<Rightarrow> close_calls (clientConn s) | Panicked \<Rightarrow> 0)"

definition queue_closes :: "outcome \<Rightarrow> nat" where
  "queue_closes r = (case r of Returned s \<Rightarrow> close_count (pktUncompressChannel s) | Panicked \<Rightarrow> 0)"

definition published :: "outcome \<Rightarrow> CompressData list" where
  "published r = (case r of Returned s \<Rightarrow> items (pktUncompressChannel s) | Panicked \<Rightarrow> [])"

definition unread :: "outcome \<Rightarrow> (byte list \<times> read_err option) list" where
  "unread r = (case r of Returned s \<Rightarrow> pending (clientConn s) | Panicked \<Rightarrow> [])"

definition logged :: "outcome \<Rightarrow> log_entry list" where
  "logged r = (case r of Returned s \<Rightarrow> logs s | Panicked \<Rightarrow> [])"

subsection \<open>The wire format, as the sender writes it\<close>

text \<open>
  The sender's side of the wire format, in the spec's words (section 6): the magic
  \<^verbatim>\<open>DE EF EC E0\<close>, the payload length as an unsigned 32-bit little-endian number,
  the flag byte, the payload. \<open>le32\<close> is the 4-byte little-endian encoding and
  \<open>declared_length\<close> the number that the bytes at offsets 4 to 7 of a header spell.
\<close>

definition le32 :: "32 word \<Rightarrow> byte list" where
  "le32 w = [ucast w, ucast (drop_bit 8 w), ucast (drop_bit 16 w), ucast (drop_bit 24 w)]"

definition encode_frame :: "byte \<Rightarrow> byte list \<Rightarrow> byte list" where
  "encode_frame f P = [0xDE, 0xEF, 0xEC, 0xE0] @ le32 (word_of_nat (length P)) @ [f] @ P"

definition declared_length :: "byte list \<Rightarrow> nat" where
  "declared_length h =
     unat (h ! 4) + 256 * unat (h ! 5) + 65536 * unat (h ! 6) + 16777216 * unat (h ! 7)"

subsection \<open>processHost: what is done with an accepted connection\<close>

text \<open>
  Modelled from the spec: \<^verbatim>\<open>handleServerAuth\<close>, the handshake of the Auth Gate; the
  function is called at line 173 and declared in another file of the package. The spec
  (section 4.4) gives its contract: a handshake on the freshly accepted connection with
  the outcome accepted or rejected, and on rejection the connection is closed. What the
  handshake exchanges is left open: \<open>handshake\<close> stands for it, returning the outcome
  and the connection as the exchange left it.
\<close>

definition handleServerAuth :: "(conn \<Rightarrow> bool \<times> conn) \<Rightarrow> conn \<Rightarrow> bool \<times> conn" where
  "handleServerAuth handshake hostConn =
     (let r = handshake hostConn
      in if fst r then (True, snd r) else (False, conn_Close (snd r)))"

text \<open>
  The goroutines \<^verbatim>\<open>processHost\<close> starts: \<^verbatim>\<open>calculateDataSize\<close> once (line 161),
  and per connection \<^verbatim>\<open>decompressPkts\<close> on the connection's frame queue and
  \<^verbatim>\<open>readPkts\<close> on the connection and that queue. Connections and frame queues are
  named by their position in the lists of the state.
\<close>

datatype goroutine = CalculateDataSize | DecompressPkts nat | ReadPkts nat nat

record host_state =
  accepted :: "conn list"
  frame_queues :: "CompressData chan list"
  hostSizeChannel :: "nat chan"
  goroutines :: "goroutine list"

text \<open>Lines 160 and 161, before the accept loop.\<close>

definition processHost_init :: host_state where
  "processHost_init =
     \<lparr>accepted = [], frame_queues = [], hostSizeChannel = make_chan maxNumPkts,
      goroutines = [CalculateDataSize]\<rparr>"

text \<open>
  Lines 174 to 176 and again 181 to 183: make the frame queue, start
  \<^verbatim>\<open>decompressPkts\<close> and \<^verbatim>\<open>readPkts\<close>.
\<close>

definition start_pipeline :: "host_state \<Rightarrow> conn \<Rightarrow> host_state" where
  "start_pipeline st hostConn =
     st\<lparr>accepted := accepted st @ [hostConn],
        frame_queues := frame_queues st @ [make_chan maxNumPkts],
        goroutines := goroutines st @
          [DecompressPkts (length (frame_queues st)),
           ReadPkts (length (accepted st)) (length (frame_queues st))]\<rparr>"

text \<open>
  Lines 171 to 183, for one connection that \<^verbatim>\<open>Accept\<close> returned. With
  authentication enabled the handshake runs in a goroutine of its own; what it leads to
  for this connection is the same, so it is run here to its end.
\<close>

definition on_accept :: "config \<Rightarrow> (conn \<Rightarrow> bool \<times> conn) \<Rightarrow> host_state \<Rightarrow> conn \<Rightarrow> host_state" where
  "on_accept cfg handshake st hostConn =
     (if AuthEnable cfg then
        (let r = handleServerAuth handshake hostConn
         in if fst r then start_pipeline st (snd r)
            else st\<lparr>accepted := accepted st @ [snd r]\<rparr>)
      else start_pipeline st hostConn)"

text \<open>
  The accept loop, lines 163 to 184, over what \<^verbatim>\<open>Accept\<close> returns: a connection,
  or \<open>None\<close> for an error, which ends the loop.
\<close>

fun accept_loop :: "config \<Rightarrow> (conn \<Rightarrow> bool \<times> conn) \<Rightarrow> host_state \<Rightarrow> conn option list \<Rightarrow> host_state" where
  "accept_loop cfg handshake st [] = st"
| "accept_loop cfg handshake st (None # rest) = st"
| "accept_loop cfg handshake st (Some hostConn # rest) =
     accept_loop cfg handshake (on_accept cfg handshake st hostConn) rest"

section \<open>Properties of the reads and of the loops\<close>

subsection \<open>Reads that complete\<close>

lemma pending_same: "pending c = evs \<Longrightarrow> c\<lparr>pending := evs\<rparr> = c"
  by auto

lemma read_pass_full:
  assumes "length buf = t"
  shows "read_pass c buf t t lg =
           Return None buf c ((if deadline_fails c then lg @ [LogDeadline] else lg) @ [LogZeroBytesNoErr])"
  using assms by (simp add: read_pass_def conn_Read_def Let_def)

lemma read_pass_chunk:
  assumes "pending c = (ch, None) # evs" and "ch \<noteq> []" and "length buf = n" and "t < n"
  shows "read_pass c buf n t lg =
          (let lg1 = (if deadline_fails c then lg @ [LogDeadline] else lg) in
           if n - t < length ch
             then Return None (take t buf @ take (n - t) ch) (c\<lparr>pending := (drop (n - t) ch, None) # evs\<rparr>) lg1
           else if t + length ch = n
             then Return None (take t buf @ ch) (c\<lparr>pending := evs\<rparr>) lg1
           else Again (c\<lparr>pending := evs\<rparr>) (take t buf @ ch @ drop (t + length ch) buf) (t + length ch) lg1)"
  using assms by (auto simp: read_pass_def conn_Read_def Let_def)

lemma readLoop_accumulates:
  assumes "pending c = data_events chunks @ rest" and "\<forall>ch\<in>set chunks. ch \<noteq> []"
    and "length buf = n" and "t \<le> n" and "n - t \<le> length (concat chunks)"
  shows "\<exists>chunks' lg'.
           readLoop c buf n t lg =
             (None, take t buf @ take (n - t) (concat chunks),
              c\<lparr>pending := data_events chunks' @ rest\<rparr>, lg') \<and>
           (\<forall>ch\<in>set chunks'. ch \<noteq> []) \<and>
           concat chunks' = drop (n - t) (concat chunks)"
  using assms
proof (induction chunks arbitrary: c buf t lg)
  case Nil
  then have "t = n" by simp
  with Nil show ?case
    by - (rule exI [of _ "[]"], simp add: readLoop.simps read_pass_full data_events_def pending_same)
next
  case (Cons ch chs)
  show ?case
  proof (cases "t = n")
    case True
    with Cons.prems show ?thesis
      by - (rule exI [of _ "ch # chs"], simp add: readLoop.simps read_pass_full pending_same)
  next
    case False
    then have lt: "t < n" using Cons.prems by simp
    have pend: "pending c = (ch, None) # (data_events chs @ rest)" and ne: "ch \<noteq> []"
      using Cons.prems by (simp_all add: data_events_def)
    note pass = read_pass_chunk [OF pend ne Cons.prems(3) lt, of lg]
    consider (split) "n - t < length ch" | (exact) "t + length ch = n"
      | (more) "t + length ch < n"
      using lt by linarith
    then show ?thesis
    proof cases
      case split
      then show ?thesis
        using Cons.prems(2)
        by - (rule exI [of _ "drop (n - t) ch # chs"], subst readLoop.simps,
              simp add: pass Let_def data_events_def)
    next
      case exact
      then have "n - t = length ch" by simp
      then show ?thesis
        using exact Cons.prems(2)
        by - (rule exI [of _ "chs"], subst readLoop.simps, simp add: pass Let_def data_events_def)
    next
      case more
      let ?c1 = "c\<lparr>pending := data_events chs @ rest\<rparr>"
      let ?buf1 = "take t buf @ ch @ drop (t + length ch) buf"
      let ?lg1 = "if deadline_fails c then lg @ [LogDeadline] else lg"
      have step: "readLoop c buf n t lg = readLoop ?c1 ?buf1 n (t + length ch) ?lg1"
      proof -
        have "\<not> n - t < length ch" and "t + length ch \<noteq> n"
          using more by arith+
        then show ?thesis
          by (subst readLoop.simps) (simp add: pass Let_def)
      qed
      have len1: "length ?buf1 = n" using more Cons.prems(3) by simp
      have "\<exists>chunks' lg'.
           readLoop ?c1 ?buf1 n (t + length ch) ?lg1 =
             (None, take (t + length ch) ?buf1 @ take (n - (t + length ch)) (concat chs),
              ?c1\<lparr>pending := data_events chunks' @ rest\<rparr>, lg') \<and>
           (\<forall>ch\<in>set chunks'. ch \<noteq> []) \<and>
           concat chunks' = drop (n - (t + length ch)) (concat chs)"
        using Cons.prems more by (intro Cons.IH len1) simp_all
      then obtain chunks' lg' where
        r: "readLoop ?c1 ?buf1 n (t + length ch) ?lg1 =
             (None, take (t + length ch) ?buf1 @ take (n - (t + length ch)) (concat chs),
              ?c1\<lparr>pending := data_events chunks' @ rest\<rparr>, lg')"
        and ne': "\<forall>ch\<in>set chunks'. ch \<noteq> []"
        and cc: "concat chunks' = drop (n - (t + length ch)) (concat chs)"
        by blast
      have tk: "take (t + length ch) ?buf1 = take t buf @ ch"
        using more Cons.prems(3) by simp
      show ?thesis
        using step r ne' cc tk more
        by (intro exI [of _ chunks'] exI [of _ lg']) simp
    qed
  qed
qed

subsection \<open>Reads that fail\<close>

text \<open>The error a read that fails before completion is turned into (lines 39 to 47).\<close>

lemma read_pass_err_event:
  assumes "pending c = (d, Some e) # rest" and "length buf = n" and "t + length d < n"
  shows "read_pass c buf n t lg =
           Return (Some (case e of EOF \<Rightarrow> ClosedAbruptly | Timeout \<Rightarrow> ReadTimeout
                           | OtherErr \<Rightarrow> ClosedConnection OtherErr))
             (take t buf @ d @ drop (t + length d) buf) (c\<lparr>pending := rest\<rparr>)
             (if deadline_fails c then lg @ [LogDeadline] else lg)"
  using assms by (cases e) (auto simp: read_pass_def conn_Read_def Let_def)

lemma read_pass_at_end:
  assumes "pending c = []" and "length buf = n" and "t < n"
  shows "read_pass c buf n t lg =
           Return (Some (case at_end c of EOF \<Rightarrow> ClosedAbruptly | Timeout \<Rightarrow> ReadTimeout
                           | OtherErr \<Rightarrow> ClosedConnection OtherErr))
             buf c (if deadline_fails c then lg @ [LogDeadline] else lg)"
  using assms by (cases "at_end c") (auto simp: read_pass_def conn_Read_def Let_def)

lemma read_pass_chunk_more:
  assumes "pending c = (ch, None) # evs" and "ch \<noteq> []" and "length buf = n"
    and "t + length ch < n"
  shows "read_pass c buf n t lg =
           Again (c\<lparr>pending := evs\<rparr>) (take t buf @ ch @ drop (t + length ch) buf)
             (t + length ch) (if deadline_fails c then lg @ [LogDeadline] else lg)"
proof -
  have "t < n" and "\<not> n - t < length ch" and "t + length ch \<noteq> n"
    using assms(4) by arith+
  then show ?thesis
    using read_pass_chunk [OF assms(1,2,3), of t lg] by (simp add: Let_def)
qed

lemma readLoop_error_event:
  assumes "pending c = data_events chunks @ (d, Some e) # rest"
    and "\<forall>ch\<in>set chunks. ch \<noteq> []" and "length buf = n"
    and "t + length (concat chunks) + length d < n"
  shows "\<exists>lg'. readLoop c buf n t lg =
           (Some (case e of EOF \<Rightarrow> ClosedAbruptly | Timeout \<Rightarrow> ReadTimeout
                    | OtherErr \<Rightarrow> ClosedConnection OtherErr),
            take t buf @ concat chunks @ d @ drop (t + length (concat chunks) + length d) buf,
            c\<lparr>pending := rest\<rparr>, lg') \<and> set lg' \<subseteq> set lg \<union> {LogDeadline}"
  using assms
proof (induction chunks arbitrary: c buf t lg)
  case Nil
  then show ?case
    by (subst readLoop.simps) (auto simp: read_pass_err_event data_events_def)
next
  case (Cons ch chs)
  let ?c1 = "c\<lparr>pending := data_events chs @ (d, Some e) # rest\<rparr>"
  let ?buf1 = "take t buf @ ch @ drop (t + length ch) buf"
  let ?lg1 = "if deadline_fails c then lg @ [LogDeadline] else lg"
  have pend: "pending c = (ch, None) # (data_events chs @ (d, Some e) # rest)" and ne: "ch \<noteq> []"
    using Cons.prems by (simp_all add: data_events_def)
  have more: "t + length ch < n" using Cons.prems(4) by simp
  have step: "readLoop c buf n t lg = readLoop ?c1 ?buf1 n (t + length ch) ?lg1"
    by (subst readLoop.simps) (simp add: read_pass_chunk_more [OF pend ne Cons.prems(3) more])
  have len1: "length ?buf1 = n" using more Cons.prems(3) by simp
  have "\<exists>lg'. readLoop ?c1 ?buf1 n (t + length ch) ?lg1 =
           (Some (case e of EOF \<Rightarrow> ClosedAbruptly | Timeout \<Rightarrow> ReadTimeout
                    | OtherErr \<Rightarrow> ClosedConnection OtherErr),
            take (t + length ch) ?buf1 @ concat chs @ d
              @ drop (t + length ch + length (concat chs) + length d) ?buf1,
            ?c1\<lparr>pending := rest\<rparr>, lg') \<and> set lg' \<subseteq> set ?lg1 \<union> {LogDeadline}"
    using Cons.prems by (intro Cons.IH len1) (simp_all add: add.assoc)
  then obtain lg' where
    r: "readLoop ?c1 ?buf1 n (t + length ch) ?lg1 =
           (Some (case e of EOF \<Rightarrow> ClosedAbruptly | Timeout \<Rightarrow> ReadTimeout
                    | OtherErr \<Rightarrow> ClosedConnection OtherErr),
            take (t + length ch) ?buf1 @ concat chs @ d
              @ drop (t + length ch + length (concat chs) + length d) ?buf1,
            ?c1\<lparr>pending := rest\<rparr>, lg')"
    and lg: "set lg' \<subseteq> set ?lg1 \<union> {LogDeadline}"
    by blast
  have tk: "take (t + length ch) ?buf1 = take t buf @ ch"
    using more Cons.prems(3) by simp
  have dr: "drop (t + length ch + length (concat chs) + length d) ?buf1
              = drop (t + length (concat (ch # chs)) + length d) buf"
    using more Cons.prems(3) by (simp add: ac_simps)
  have lg2: "set lg' \<subseteq> set lg \<union> {LogDeadline}"
    using lg by (auto split: if_splits)
  show ?case
    using step r tk dr lg2 by (intro exI [of _ lg']) simp
qed

lemma readLoop_at_end:
  assumes "pending c = data_events chunks"
    and "\<forall>ch\<in>set chunks. ch \<noteq> []" and "length buf = n"
    and "t + length (concat chunks) < n"
  shows "\<exists>lg'. readLoop c buf n t lg =
           (Some (case at_end c of EOF \<Rightarrow> ClosedAbruptly | Timeout \<Rightarrow> ReadTimeout
                    | OtherErr \<Rightarrow> ClosedConnection OtherErr),
            take t buf @ concat chunks @ drop (t + length (concat chunks)) buf,
            c\<lparr>pending := []\<rparr>, lg') \<and> set lg' \<subseteq> set lg \<union> {LogDeadline}"
  using assms
proof (induction chunks arbitrary: c buf t lg)
  case Nil
  then show ?case
    by (subst readLoop.simps) (auto simp: read_pass_at_end data_events_def pending_same)
next
  case (Cons ch chs)
  let ?c1 = "c\<lparr>pending := data_events chs\<rparr>"
  let ?buf1 = "take t buf @ ch @ drop (t + length ch) buf"
  let ?lg1 = "if deadline_fails c then lg @ [LogDeadline] else lg"
  have pend: "pending c = (ch, None) # data_events chs" and ne: "ch \<noteq> []"
    using Cons.prems by (simp_all add: data_events_def)
  have more: "t + length ch < n" using Cons.prems(4) by simp
  have step: "readLoop c buf n t lg = readLoop ?c1 ?buf1 n (t + length ch) ?lg1"
    by (subst readLoop.simps) (simp add: read_pass_chunk_more [OF pend ne Cons.prems(3) more])
  have len1: "length ?buf1 = n" using more Cons.prems(3) by simp
  have "\<exists>lg'. readLoop ?c1 ?buf1 n (t + length ch) ?lg1 =
           (Some (case at_end ?c1 of EOF \<Rightarrow> ClosedAbruptly | Timeout \<Rightarrow> ReadTimeout
                    | OtherErr \<Rightarrow> ClosedConnection OtherErr),
            take (t + length ch) ?buf1 @ concat chs
              @ drop (t + length ch + length (concat chs)) ?buf1,
            ?c1\<lparr>pending := []\<rparr>, lg') \<and> set lg' \<subseteq> set ?lg1 \<union> {LogDeadline}"
    using Cons.prems by (intro Cons.IH len1) (simp_all add: add.assoc)
  then obtain lg' where
    r: "readLoop ?c1 ?buf1 n (t + length ch) ?lg1 =
           (Some (case at_end ?c1 of EOF \<Rightarrow> ClosedAbruptly | Timeout \<Rightarrow> ReadTimeout
                    | OtherErr \<Rightarrow> ClosedConnection OtherErr),
            take (t + length ch) ?buf1 @ concat chs
              @ drop (t + length ch + length (concat chs)) ?buf1,
            ?c1\<lparr>pending := []\<rparr>, lg')"
    and lg: "set lg' \<subseteq> set ?lg1 \<union> {LogDeadline}"
    by blast
  have tk: "take (t + length ch) ?buf1 = take t buf @ ch"
    using more Cons.prems(3) by simp
  have dr: "drop (t + length ch + length (concat chs)) ?buf1
              = drop (t + length (concat (ch # chs))) buf"
    using more Cons.prems(3) by (simp add: ac_simps)
  have lg2: "set lg' \<subseteq> set lg \<union> {LogDeadline}"
    using lg by (auto split: if_splits)
  show ?case
    using step r tk dr lg2 by (intro exI [of _ lg']) simp
qed

subsection \<open>The length field\<close>

lemma Uint32_le32: "Uint32 (le32 w @ xs) = w"
  unfolding Uint32_def le32_def
proof (rule bit_word_eqI)
  fix n :: nat
  assume "n < LENGTH(32)"
  then have n: "n < 32" by simp
  consider "n < 8" | "8 \<le> n" "n < 16" | "16 \<le> n" "n < 24" | "24 \<le> n" "n < 32"
    using n by linarith
  then show "bit (ucast (([ucast w, ucast (drop_bit 8 w), ucast (drop_bit 16 w), ucast (drop_bit 24 w)] @ xs) ! 0) OR
        push_bit 8 (ucast (([ucast w, ucast (drop_bit 8 w), ucast (drop_bit 16 w), ucast (drop_bit 24 w)] @ xs) ! 1)) OR
        push_bit 16 (ucast (([ucast w, ucast (drop_bit 8 w), ucast (drop_bit 16 w), ucast (drop_bit 24 w)] @ xs) ! 2)) OR
        push_bit 24 (ucast (([ucast w, ucast (drop_bit 8 w), ucast (drop_bit 16 w), ucast (drop_bit 24 w)] @ xs) ! 3)) :: 32 word) n = bit w n"
    by cases (auto simp: bit_simps nth_append)
qed

lemma Uint32_value:
  "unat (Uint32 (b0 # b1 # b2 # b3 # xs)) =
     unat b0 + 256 * unat b1 + 65536 * unat b2 + 16777216 * unat b3"
proof -
  let ?x0 = "ucast b0 :: 32 word" and ?x1 = "push_bit 8 (ucast b1) :: 32 word"
  and ?x2 = "push_bit 16 (ucast b2) :: 32 word" and ?x3 = "push_bit 24 (ucast b3) :: 32 word"
  have a: "?x0 OR ?x1 = ?x0 + ?x1"
    by (rule disjunctive_add_eq_or [symmetric], rule bit_word_eqI)
       (auto simp: bit_simps dest: bit_imp_le_length)
  have b: "(?x0 OR ?x1) OR ?x2 = (?x0 OR ?x1) + ?x2"
    by (rule disjunctive_add_eq_or [symmetric], rule bit_word_eqI)
       (auto simp: bit_simps dest: bit_imp_le_length)
  have c: "((?x0 OR ?x1) OR ?x2) OR ?x3 = ((?x0 OR ?x1) OR ?x2) + ?x3"
    by (rule disjunctive_add_eq_or [symmetric], rule bit_word_eqI)
       (auto simp: bit_simps dest: bit_imp_le_length)
  have u: "unat b0 < 256" "unat b1 < 256" "unat b2 < 256" "unat b3 < 256"
    using unsigned_less [of b0] unsigned_less [of b1] unsigned_less [of b2] unsigned_less [of b3]
    by simp_all
  have "Uint32 (b0 # b1 # b2 # b3 # xs) = ((?x0 OR ?x1) OR ?x2) OR ?x3"
    by (simp add: Uint32_def or.assoc)
  also have "\<dots> = ((?x0 OR ?x1) OR ?x2) + ?x3" by (rule c)
  also have "\<dots> = ((?x0 OR ?x1) + ?x2) + ?x3" by (simp only: b)
  also have "\<dots> = ?x0 + ?x1 + ?x2 + ?x3" by (simp only: a)
  finally have e: "Uint32 (b0 # b1 # b2 # b3 # xs) = ?x0 + ?x1 + ?x2 + ?x3" .
  have uc: "unat (ucast b :: 32 word) = unat b" for b :: byte
  proof -
    have "unat b < 256" using unsigned_less [of b] by simp
    then have "unat b < 2 ^ 32" by simp
    then show ?thesis by (simp add: unsigned_ucast_eq take_bit_nat_eq_self)
  qed
  show ?thesis
    using u unfolding e
    by (simp add: unat_word_ariths push_bit_eq_mult uc)
qed

subsection \<open>One pass of readPkts\<close>

lemma readDataFromSocket_conn:
  "close_calls (fst (snd (snd (readDataFromSocket c buf n lg)))) = close_calls c"
  using readLoop_conn [of c buf n 0 lg] by (simp add: readDataFromSocket_def)

lemma readDataFromSocket_length:
  "length (fst (snd (readDataFromSocket c buf n lg))) = length buf"
  using readLoop_length [of 0 buf c n lg] by (simp add: readDataFromSocket_def)

lemma send_or_discard_frame:
  "close_count (fst (send_or_discard ch x m lg)) = close_count ch"
  "capacity (fst (send_or_discard ch x m lg)) = capacity ch"
  by (simp_all add: send_or_discard_def)

lemma send_or_discard_bounded:
  "length (items ch) \<le> capacity ch \<Longrightarrow>
     length (items (fst (send_or_discard ch x m lg))) \<le> capacity ch"
  by (simp add: send_or_discard_def)

lemma readPkts_iter_Stop_closes:
  assumes "readPkts_iter cfg s = Stop s'"
  shows "close_calls (clientConn s') = close_calls (clientConn s) + 1"
    and "close_count (pktUncompressChannel s') = close_count (pktUncompressChannel s) + 1"
    and "items (pktUncompressChannel s') = items (pktUncompressChannel s)"
    and "capacity (pktUncompressChannel s') = capacity (pktUncompressChannel s)"
    and "sizeChannel s' = sizeChannel s"
  using assms
  by (auto simp: readPkts_iter_def Let_def close_and_return_def conn_Close_def chan_close_def
        readDataFromSocket_conn split: if_splits hdr_check.splits)

lemma readPkts_iter_Continue_open:
  assumes "readPkts_iter cfg s = Continue s'"
  shows "close_calls (clientConn s') = close_calls (clientConn s)"
    and "close_count (pktUncompressChannel s') = close_count (pktUncompressChannel s)"
    and "capacity (pktUncompressChannel s') = capacity (pktUncompressChannel s)"
    and "capacity (sizeChannel s') = capacity (sizeChannel s)"
    and "length (dataBuff s') = length (dataBuff s)"
  using assms
  by (auto simp: readPkts_iter_def Let_def close_and_return_def send_or_discard_frame
        readDataFromSocket_conn readDataFromSocket_length slice_ok_def
        split: if_splits hdr_check.splits)

lemma readPkts_iter_Continue_bounded:
  assumes "readPkts_iter cfg s = Continue s'"
  shows "length (items (pktUncompressChannel s)) \<le> capacity (pktUncompressChannel s) \<Longrightarrow>
           length (items (pktUncompressChannel s')) \<le> capacity (pktUncompressChannel s)"
    and "length (items (sizeChannel s)) \<le> capacity (sizeChannel s) \<Longrightarrow>
           length (items (sizeChannel s')) \<le> capacity (sizeChannel s)"
  using assms
  by (auto simp: readPkts_iter_def Let_def close_and_return_def send_or_discard_bounded
        split: if_splits hdr_check.splits)

lemma check_header_OK_bound:
  "check_header cfg buf = HeaderOK l \<Longrightarrow> uint l \<le> maxFrameBytes cfg - int totalHdrLen"
  by (auto simp: check_header_def Let_def split: if_splits)

lemma readPkts_iter_no_panic:
  assumes "length (dataBuff s) = nat (maxFrameBytes cfg)" and "int totalHdrLen \<le> maxFrameBytes cfg"
  shows "readPkts_iter cfg s \<noteq> Panic"
proof -
  have hdr: "slice_ok 0 totalHdrLen (dataBuff s)"
    using assms by (simp add: slice_ok_def)
  have pl: "slice_ok totalHdrLen (totalHdrLen + unat l) buf1"
    if "check_header cfg buf1 = HeaderOK l" and "length buf1 = length (dataBuff s)" for l buf1
  proof -
    have "uint l \<le> maxFrameBytes cfg - int totalHdrLen"
      using that(1) by (rule check_header_OK_bound)
    moreover have "unat l = nat (uint l)" and "0 \<le> uint l"
      by simp_all
    ultimately have "totalHdrLen + unat l \<le> nat (maxFrameBytes cfg)"
      by linarith
    then show ?thesis
      using that(2) assms(1) by (simp add: slice_ok_def)
  qed
  show ?thesis
    using hdr
    by (auto simp: readPkts_iter_def Let_def close_and_return_def readDataFromSocket_length
          slice_ok_def
          split: hdr_check.splits dest!: pl)
qed

subsection \<open>The whole loop of readPkts, and channels under any schedule\<close>

lemma readPkts_loop_closes:
  "readPkts_loop cfg s = Returned s' \<Longrightarrow>
     close_calls (clientConn s') = close_calls (clientConn s) + 1 \<and>
     close_count (pktUncompressChannel s') = close_count (pktUncompressChannel s) + 1"
proof (induction cfg s rule: readPkts_loop.induct)
  case (1 cfg s)
  show ?case
  proof (cases "readPkts_iter cfg s")
    case (Continue s1)
    then show ?thesis
      using "1.IH" [OF Continue] "1.prems" readPkts_iter_Continue_open(1,2) [OF Continue]
      by (simp add: readPkts_loop.simps)
  next
    case (Stop s1)
    then show ?thesis
      using "1.prems" readPkts_iter_Stop_closes(1,2) [OF Stop]
      by (simp add: readPkts_loop.simps)
  next
    case Panic
    then show ?thesis
      using "1.prems" by (simp add: readPkts_loop.simps)
  qed
qed

lemma readPkts_loop_returns:
  "length (dataBuff s) = nat (maxFrameBytes cfg) \<Longrightarrow> int totalHdrLen \<le> maxFrameBytes cfg \<Longrightarrow>
     \<exists>s'. readPkts_loop cfg s = Returned s'"
proof (induction cfg s rule: readPkts_loop.induct)
  case (1 cfg s)
  show ?case
  proof (cases "readPkts_iter cfg s")
    case (Continue s1)
    then show ?thesis
      using "1.IH" [OF Continue] "1.prems" readPkts_iter_Continue_open(5) [OF Continue]
      by (simp add: readPkts_loop.simps)
  next
    case (Stop s1)
    then show ?thesis
      by (simp add: readPkts_loop.simps)
  next
    case Panic
    then show ?thesis
      using readPkts_iter_no_panic [OF "1.prems"] by simp
  qed
qed

lemma readPkts_loop_bounded:
  "readPkts_loop cfg s = Returned s' \<Longrightarrow>
   length (items (pktUncompressChannel s)) \<le> capacity (pktUncompressChannel s) \<Longrightarrow>
   length (items (sizeChannel s)) \<le> capacity (sizeChannel s) \<Longrightarrow>
     length (items (pktUncompressChannel s')) \<le> capacity (pktUncompressChannel s) \<and>
     length (items (sizeChannel s')) \<le> capacity (sizeChannel s) \<and>
     capacity (pktUncompressChannel s') = capacity (pktUncompressChannel s) \<and>
     capacity (sizeChannel s') = capacity (sizeChannel s)"
proof (induction cfg s rule: readPkts_loop.induct)
  case (1 cfg s)
  show ?case
  proof (cases "readPkts_iter cfg s")
    case (Continue s1)
    then show ?thesis
      using "1.IH" [OF Continue] "1.prems" readPkts_iter_Continue_open(3,4) [OF Continue]
        readPkts_iter_Continue_bounded [OF Continue]
      by (simp add: readPkts_loop.simps)
  next
    case (Stop s1)
    then show ?thesis
      using "1.prems" readPkts_iter_Stop_closes(3,4,5) [OF Stop]
      by (simp add: readPkts_loop.simps)
  next
    case Panic
    then show ?thesis
      using "1.prems" by (simp add: readPkts_loop.simps)
  qed
qed

lemma run_ops_bounded:
  "length (items (fst st)) \<le> capacity (fst st) \<Longrightarrow>
     length (items (fst (run_ops ops m st))) \<le> capacity (fst st) \<and>
     capacity (fst (run_ops ops m st)) = capacity (fst st)"
proof (induction ops m st rule: run_ops.induct)
  case (1 m st)
  then show ?case by simp
next
  case (2 x ops m st)
  then show ?case
    by (simp add: send_or_discard_bounded send_or_discard_frame)
next
  case (3 ops m st)
  then show ?case
    by (simp add: chan_recv_def)
qed

lemma readPkts_iter_Continue_full:
  assumes "readPkts_iter cfg s = Continue s'"
  shows "capacity (pktUncompressChannel s) \<le> length (items (pktUncompressChannel s)) \<Longrightarrow>
           pktUncompressChannel s' = pktUncompressChannel s \<and>
           LogUncompressQueueFull \<in> set (logs s')"
    and "capacity (sizeChannel s) \<le> length (items (sizeChannel s)) \<Longrightarrow>
           sizeChannel s' = sizeChannel s \<and> last (logs s') = LogSizeQueueFull"
  using assms
  by (auto simp: readPkts_iter_def Let_def close_and_return_def send_or_discard_def
        split: if_splits hdr_check.splits)

subsection \<open>A pass of readPkts over one encoded frame\<close>

lemma length_le32: "length (le32 w) = 4"
  by (simp add: le32_def)

lemma encode_frame_split:
  "encode_frame f P = (hdrData @ le32 (word_of_nat (length P)) @ [f]) @ P"
  "length (hdrData @ le32 (word_of_nat (length P)) @ [f]) = totalHdrLen"
  by (simp_all add: encode_frame_def hdrData_def length_le32 totalHdrLen_eq)

lemma check_header_encoded:
  assumes "int (length P) \<le> maxFrameBytes cfg - int totalHdrLen" and "length P < 2 ^ 32"
  shows "check_header cfg ((hdrData @ le32 (word_of_nat (length P)) @ [f]) @ xs)
           = HeaderOK (word_of_nat (length P))"
proof -
  have u: "uint (word_of_nat (length P) :: 32 word) = int (length P)"
    using assms(2) by (simp add: uint_nat unat_of_nat)
  have "Uint32 (drop (length hdrData) ((hdrData @ le32 (word_of_nat (length P)) @ [f]) @ xs))
          = word_of_nat (length P)"
    using Uint32_le32 [of "word_of_nat (length P)" "[f] @ xs"] by simp
  then show ?thesis
    using assms(1) u by (simp add: check_header_def Let_def)
qed

lemma readPkts_iter_frame:
  assumes len: "length (dataBuff s) = nat (maxFrameBytes cfg)"
    and fits: "int (length P) \<le> maxFrameBytes cfg - int totalHdrLen"
    and small: "length P < 2 ^ 32"
    and pend: "pending (clientConn s) = data_events chunks @ rest"
    and ne: "\<forall>ch\<in>set chunks. ch \<noteq> []"
    and cc: "concat chunks = encode_frame f P @ extra"
  shows "\<exists>chunks' lg'.
           readPkts_iter cfg s =
             Continue (s\<lparr>clientConn := (clientConn s)\<lparr>pending := data_events chunks' @ rest\<rparr>,
                          dataBuff := encode_frame f P @ drop (totalHdrLen + length P) (dataBuff s),
                          pktUncompressChannel :=
                            fst (send_or_discard (pktUncompressChannel s)
                                   \<lparr>Data = P, IsCompressed = (f \<noteq> 0)\<rparr> LogUncompressQueueFull lg'),
                          sizeChannel :=
                            fst (send_or_discard (sizeChannel s) (totalHdrLen + length P) LogSizeQueueFull
                                   (snd (send_or_discard (pktUncompressChannel s)
                                      \<lparr>Data = P, IsCompressed = (f \<noteq> 0)\<rparr> LogUncompressQueueFull lg'))),
                          logs :=
                            snd (send_or_discard (sizeChannel s) (totalHdrLen + length P) LogSizeQueueFull
                                   (snd (send_or_discard (pktUncompressChannel s)
                                      \<lparr>Data = P, IsCompressed = (f \<noteq> 0)\<rparr> LogUncompressQueueFull lg')))\<rparr>) \<and>
           (\<forall>ch\<in>set chunks'. ch \<noteq> []) \<and> concat chunks' = extra"
proof -
  let ?n = "length P"
  define hdr where "hdr = hdrData @ le32 (word_of_nat ?n) @ [f]"
  let ?buf = "dataBuff s"
  have hl: "length hdr = totalHdrLen"
    unfolding hdr_def by (rule encode_frame_split(2))
  have enc: "encode_frame f P = hdr @ P"
    unfolding hdr_def by (rule encode_frame_split(1))
  have room: "totalHdrLen + ?n \<le> length ?buf"
    using len fits by linarith
  have sl1: "slice_ok 0 totalHdrLen ?buf"
    using room by (simp add: slice_ok_def)
  \<comment> \<open>the read of the header\<close>
  obtain chunks1 lg1 where
    r1: "readDataFromSocket (clientConn s) (take totalHdrLen ?buf) totalHdrLen (logs s) =
           (None, hdr, (clientConn s)\<lparr>pending := data_events chunks1 @ rest\<rparr>, lg1)"
    and ne1: "\<forall>ch\<in>set chunks1. ch \<noteq> []" and cc1: "concat chunks1 = P @ extra"
  proof -
    have "\<exists>chunks' lg'.
           readLoop (clientConn s) (take totalHdrLen ?buf) totalHdrLen 0 (logs s) =
             (None, take 0 (take totalHdrLen ?buf) @ take (totalHdrLen - 0) (concat chunks),
              (clientConn s)\<lparr>pending := data_events chunks' @ rest\<rparr>, lg') \<and>
           (\<forall>ch\<in>set chunks'. ch \<noteq> []) \<and>
           concat chunks' = drop (totalHdrLen - 0) (concat chunks)"
      using room hl by (intro readLoop_accumulates pend ne) (simp_all add: cc enc)
    then show ?thesis
      using that hl by (auto simp: readDataFromSocket_def cc enc)
  qed
  let ?c1 = "(clientConn s)\<lparr>pending := data_events chunks1 @ rest\<rparr>"
  let ?buf1 = "hdr @ drop totalHdrLen ?buf"
  have ch: "check_header cfg ?buf1 = HeaderOK (word_of_nat ?n)"
    unfolding hdr_def by (rule check_header_encoded [OF fits small])
  have un: "unat (word_of_nat ?n :: 32 word) = ?n"
    using small by (simp add: unat_of_nat)
  have len1: "length ?buf1 = length ?buf"
    using room hl by simp
  have sl2: "slice_ok totalHdrLen (totalHdrLen + ?n) ?buf1"
    using room len1 by (simp add: slice_ok_def)
  \<comment> \<open>the read of the payload\<close>
  obtain chunks2 lg2 where
    r2: "readDataFromSocket ?c1 (take ?n (drop totalHdrLen ?buf1)) ?n lg1 =
           (None, P, ?c1\<lparr>pending := data_events chunks2 @ rest\<rparr>, lg2)"
    and ne2: "\<forall>ch\<in>set chunks2. ch \<noteq> []" and cc2: "concat chunks2 = extra"
  proof -
    have "\<exists>chunks' lg'.
           readLoop ?c1 (take ?n (drop totalHdrLen ?buf1)) ?n 0 lg1 =
             (None, take 0 (take ?n (drop totalHdrLen ?buf1)) @ take (?n - 0) (concat chunks1),
              ?c1\<lparr>pending := data_events chunks' @ rest\<rparr>, lg') \<and>
           (\<forall>ch\<in>set chunks'. ch \<noteq> []) \<and>
           concat chunks' = drop (?n - 0) (concat chunks1)"
      using room hl by (intro readLoop_accumulates ne1) (simp_all add: cc1)
    then show ?thesis
      using that by (auto simp: readDataFromSocket_def cc1)
  qed
  let ?buf2 = "take totalHdrLen ?buf1 @ P @ drop (totalHdrLen + ?n) ?buf1"
  have buf2: "?buf2 = encode_frame f P @ drop (totalHdrLen + ?n) ?buf"
    using hl by (simp add: enc add.commute)
  have f8: "hdr ! (length hdrData + payloadMarkerLen) = f"
    by (simp add: hdr_def hdrData_def payloadMarkerLen_def le32_def)
  have "length hdrData + payloadMarkerLen < length hdr"
    by (simp add: hl totalHdrLen_def compressFlagByteLen_def)
  then have fr: "mk_frame ?buf2 ?n = \<lparr>Data = P, IsCompressed = (f \<noteq> 0)\<rparr>"
    using hl f8 by (simp add: mk_frame_def nth_append)
  have it: "readPkts_iter cfg s =
          Continue (s\<lparr>clientConn := ?c1\<lparr>pending := data_events chunks2 @ rest\<rparr>,
                       dataBuff := ?buf2,
                       pktUncompressChannel :=
                         fst (send_or_discard (pktUncompressChannel s) (mk_frame ?buf2 ?n)
                                LogUncompressQueueFull lg2),
                       sizeChannel :=
                         fst (send_or_discard (sizeChannel s) (totalHdrLen + ?n) LogSizeQueueFull
                                (snd (send_or_discard (pktUncompressChannel s) (mk_frame ?buf2 ?n)
                                   LogUncompressQueueFull lg2))),
                       logs :=
                         snd (send_or_discard (sizeChannel s) (totalHdrLen + ?n) LogSizeQueueFull
                                (snd (send_or_discard (pktUncompressChannel s) (mk_frame ?buf2 ?n)
                                   LogUncompressQueueFull lg2)))\<rparr>)"
    unfolding readPkts_iter_def Let_def
    by (simp only: sl1 r1 ch un sl2 r2 fst_conv snd_conv hdr_check.case if_False if_True
          not_True_eq_False not_False_eq_True simp_thms option.simps)
  have fr2: "mk_frame (encode_frame f P @ drop (totalHdrLen + ?n) ?buf) ?n
                   = \<lparr>Data = P, IsCompressed = (f \<noteq> 0)\<rparr>"
    using fr by (simp only: buf2)
  have c12: "?c1\<lparr>pending := data_events chunks2 @ rest\<rparr>
               = (clientConn s)\<lparr>pending := data_events chunks2 @ rest\<rparr>"
    by simp
  have "readPkts_iter cfg s =
             Continue (s\<lparr>clientConn := (clientConn s)\<lparr>pending := data_events chunks2 @ rest\<rparr>,
                          dataBuff := encode_frame f P @ drop (totalHdrLen + length P) (dataBuff s),
                          pktUncompressChannel :=
                            fst (send_or_discard (pktUncompressChannel s)
                                   \<lparr>Data = P, IsCompressed = (f \<noteq> 0)\<rparr> LogUncompressQueueFull lg2),
                          sizeChannel :=
                            fst (send_or_discard (sizeChannel s) (totalHdrLen + length P) LogSizeQueueFull
                                   (snd (send_or_discard (pktUncompressChannel s)
                                      \<lparr>Data = P, IsCompressed = (f \<noteq> 0)\<rparr> LogUncompressQueueFull lg2))),
                          logs :=
                            snd (send_or_discard (sizeChannel s) (totalHdrLen + length P) LogSizeQueueFull
                                   (snd (send_or_discard (pktUncompressChannel s)
                                      \<lparr>Data = P, IsCompressed = (f \<noteq> 0)\<rparr> LogUncompressQueueFull lg2)))\<rparr>)"
    using it by (simp only: buf2 fr2 c12)
  then show ?thesis
    using ne2 cc2 by blast
qed

lemma stream_bytes_data_events:
  "stream_bytes (data_events chunks @ rest) = concat chunks @ stream_bytes rest"
  by (simp add: stream_bytes_def data_events_def comp_def)

lemma list9:
  assumes "length (h :: 'a list) = 9"
  shows "h = [h ! 0, h ! 1, h ! 2, h ! 3, h ! 4, h ! 5, h ! 6, h ! 7, h ! 8]"
proof -
  obtain a0 a1 a2 a3 a4 a5 a6 a7 a8 where "h = [a0, a1, a2, a3, a4, a5, a6, a7, a8]"
    using assms by (auto simp: numeral_eq_Suc length_Suc_conv)
  then show ?thesis by simp
qed

lemma word_of_nat_unat: "word_of_nat (unat (w :: 32 word)) = w"
  by simp

lemma Uint32_declared_length:
  assumes "length h = totalHdrLen"
  shows "Uint32 (drop (length hdrData) (h @ xs)) = word_of_nat (declared_length h)"
    and "uint (Uint32 (drop (length hdrData) (h @ xs))) = int (declared_length h)"
    and "unat (word_of_nat (declared_length h) :: 32 word) = declared_length h"
proof -
  have h: "h = [h ! 0, h ! 1, h ! 2, h ! 3, h ! 4, h ! 5, h ! 6, h ! 7, h ! 8]"
    using assms by (intro list9) (simp add: totalHdrLen_eq)
  have "drop (length hdrData) (h @ xs) = h ! 4 # h ! 5 # h ! 6 # h ! 7 # h ! 8 # xs"
    by (subst h) (simp add: hdrData_def)
  then have u: "unat (Uint32 (drop (length hdrData) (h @ xs))) = declared_length h"
    by (simp add: Uint32_value declared_length_def)
  then show a: "Uint32 (drop (length hdrData) (h @ xs)) = word_of_nat (declared_length h)"
    by (metis word_of_nat_unat)
  show "uint (Uint32 (drop (length hdrData) (h @ xs))) = int (declared_length h)"
    using u by (simp add: uint_nat)
  show "unat (word_of_nat (declared_length h) :: 32 word) = declared_length h"
    using u a by simp
qed

lemma length_hdrData: "length hdrData = 4"
  by (simp add: hdrData_def)

lemma hdrData_take: "take (length hdrData) (h @ xs) = take 4 h" if "length h = totalHdrLen"
  using that by (simp add: length_hdrData totalHdrLen_eq)

lemma check_header_cases:
  assumes "length h = totalHdrLen"
  shows "check_header cfg (h @ xs) =
           (if take 4 h \<noteq> [0xDE, 0xEF, 0xEC, 0xE0] then IllegalData
            else if int (declared_length h) > maxFrameBytes cfg - 9
              then InvalidLength (word_of_nat (declared_length h))
            else HeaderOK (word_of_nat (declared_length h)))"
proof -
  have "take (length hdrData) (h @ xs) = take 4 h"
    using assms by (rule hdrData_take)
  then show ?thesis
    using Uint32_declared_length(1,2) [OF assms, of xs]
    by (simp add: check_header_def Let_def totalHdrLen_eq) (simp add: hdrData_def)
qed

lemma read_pass_zero_event:
  assumes "pending c = ([], None) # rest" and "length buf = n" and "t < n"
  shows "read_pass c buf n t lg =
           Return None buf (c\<lparr>pending := rest\<rparr>)
             ((if deadline_fails c then lg @ [LogDeadline] else lg) @ [LogZeroBytesNoErr])"
  using assms by (auto simp: read_pass_def conn_Read_def Let_def)

lemma readLoop_zero_event:
  assumes "pending c = data_events chunks @ ([], None) # rest"
    and "\<forall>ch\<in>set chunks. ch \<noteq> []" and "length buf = n"
    and "t + length (concat chunks) < n"
  shows "\<exists>lg'. readLoop c buf n t lg =
           (None, take t buf @ concat chunks @ drop (t + length (concat chunks)) buf,
            c\<lparr>pending := rest\<rparr>, lg' @ [LogZeroBytesNoErr])"
  using assms
proof (induction chunks arbitrary: c buf t lg)
  case Nil
  then show ?case
    by (subst readLoop.simps) (auto simp: read_pass_zero_event data_events_def)
next
  case (Cons ch chs)
  let ?c1 = "c\<lparr>pending := data_events chs @ ([], None) # rest\<rparr>"
  let ?buf1 = "take t buf @ ch @ drop (t + length ch) buf"
  let ?lg1 = "if deadline_fails c then lg @ [LogDeadline] else lg"
  have pend: "pending c = (ch, None) # (data_events chs @ ([], None) # rest)" and ne: "ch \<noteq> []"
    using Cons.prems by (simp_all add: data_events_def)
  have more: "t + length ch < n" using Cons.prems(4) by simp
  have step: "readLoop c buf n t lg = readLoop ?c1 ?buf1 n (t + length ch) ?lg1"
    by (subst readLoop.simps) (simp add: read_pass_chunk_more [OF pend ne Cons.prems(3) more])
  have len1: "length ?buf1 = n" using more Cons.prems(3) by simp
  have "\<exists>lg'. readLoop ?c1 ?buf1 n (t + length ch) ?lg1 =
           (None, take (t + length ch) ?buf1 @ concat chs
              @ drop (t + length ch + length (concat chs)) ?buf1,
            ?c1\<lparr>pending := rest\<rparr>, lg' @ [LogZeroBytesNoErr])"
    using Cons.prems by (intro Cons.IH len1) (simp_all add: add.assoc)
  then obtain lg' where
    r: "readLoop ?c1 ?buf1 n (t + length ch) ?lg1 =
           (None, take (t + length ch) ?buf1 @ concat chs
              @ drop (t + length ch + length (concat chs)) ?buf1,
            ?c1\<lparr>pending := rest\<rparr>, lg' @ [LogZeroBytesNoErr])"
    by blast
  have tk: "take (t + length ch) ?buf1 = take t buf @ ch"
    using more Cons.prems(3) by simp
  have dr: "drop (t + length ch + length (concat chs)) ?buf1
              = drop (t + length (concat (ch # chs))) buf"
    using more Cons.prems(3) by (simp add: ac_simps)
  show ?case
    using step r tk dr by (intro exI [of _ lg']) simp
qed

subsection \<open>The accept loop\<close>

lemma on_accept_length:
  "length (accepted (on_accept cfg handshake st hostConn)) = Suc (length (accepted st))"
  by (simp add: on_accept_def start_pipeline_def Let_def)

lemma on_accept_old:
  "i < length (accepted st) \<Longrightarrow>
     accepted (on_accept cfg handshake st hostConn) ! i = accepted st ! i"
  by (simp add: on_accept_def start_pipeline_def Let_def nth_append)

lemma on_accept_old_readers:
  "ReadPkts i q \<in> set (goroutines (on_accept cfg handshake st hostConn)) \<Longrightarrow>
     i < length (accepted st) \<Longrightarrow> ReadPkts i q \<in> set (goroutines st)"
  by (auto simp: on_accept_def start_pipeline_def Let_def split: if_splits)

lemma on_accept_readers_bounded:
  "\<forall>i q. ReadPkts i q \<in> set (goroutines st) \<longrightarrow> i < length (accepted st) \<Longrightarrow>
     \<forall>i q. ReadPkts i q \<in> set (goroutines (on_accept cfg handshake st hostConn)) \<longrightarrow>
       i < length (accepted (on_accept cfg handshake st hostConn))"
  by (auto simp: on_accept_def start_pipeline_def Let_def split: if_splits)

lemma accept_loop_old:
  "i < length (accepted st) \<Longrightarrow>
     accepted (accept_loop cfg handshake st accepts) ! i = accepted st ! i \<and>
     (ReadPkts i q \<in> set (goroutines (accept_loop cfg handshake st accepts)) \<longrightarrow>
        ReadPkts i q \<in> set (goroutines st))"
proof (induction cfg handshake st accepts rule: accept_loop.induct)
  case (1 cfg handshake st)
  then show ?case by simp
next
  case (2 cfg handshake st rest)
  then show ?case by simp
next
  case (3 cfg handshake st hostConn rest)
  have "i < length (accepted (on_accept cfg handshake st hostConn))"
    using "3.prems" by (simp add: on_accept_length)
  then show ?case
    using "3.IH" "3.prems" on_accept_old [of i st cfg handshake hostConn]
      on_accept_old_readers [of i q cfg handshake st hostConn]
    by auto
qed

lemma accept_loop_readers_bounded:
  "\<forall>i q. ReadPkts i q \<in> set (goroutines st) \<longrightarrow> i < length (accepted st) \<Longrightarrow>
     \<forall>i q. ReadPkts i q \<in> set (goroutines (accept_loop cfg handshake st accepts)) \<longrightarrow>
       i < length (accepted (accept_loop cfg handshake st accepts))"
proof (induction cfg handshake st accepts rule: accept_loop.induct)
  case (1 cfg handshake st)
  then show ?case by simp
next
  case (2 cfg handshake st rest)
  then show ?case by simp
next
  case (3 cfg handshake st hostConn rest)
  show ?case
    using "3.IH" [OF on_accept_readers_bounded [OF "3.prems"]] by simp
qed

lemma on_accept_rejected:
  assumes "AuthEnable cfg" and "\<not> fst (handshake hostConn)"
  shows "on_accept cfg handshake st hostConn =
           st\<lparr>accepted := accepted st @ [conn_Close (snd (handshake hostConn))]\<rparr>"
  using assms by (simp add: on_accept_def handleServerAuth_def Let_def)

section \<open>The claims\<close>

subsection \<open>The Socket Reader\<close>

text \<open>
  Claim C6 (partial-read completion). \<^verbatim>\<open>readDataFromSocket\<close> is asked for
  \<open>n \<ge> 1\<close> bytes into a slice of length \<open>n\<close> (both call sites pass such a slice),
  and the peer sends non-empty chunks, each reported without an error. If the chunks hold
  at least \<open>n\<close> bytes, the call returns no error, the slice holds the first \<open>n\<close> bytes
  sent, in order, and what remains to be read from the connection is what was sent after
  them: nothing is lost and nothing is read twice. If the chunks hold fewer than \<open>n\<close>
  bytes and nothing else follows, the call does not return success.
\<close>

theorem partial_read_completion:
  assumes "1 \<le> n" and "length buf = n" and "\<forall>ch\<in>set chunks. ch \<noteq> []"
  shows "(pending c = data_events chunks @ rest \<and> n \<le> length (concat chunks) \<longrightarrow>
            (\<exists>chunks' lg'.
               readDataFromSocket c buf n lg =
                 (None, take n (concat chunks), c\<lparr>pending := data_events chunks' @ rest\<rparr>, lg') \<and>
               (\<forall>ch\<in>set chunks'. ch \<noteq> []) \<and>
               concat chunks' = drop n (concat chunks))) \<and>
         (pending c = data_events chunks \<and> length (concat chunks) < n \<longrightarrow>
            fst (readDataFromSocket c buf n lg) \<noteq> None)"
proof (intro conjI impI)
  assume a: "pending c = data_events chunks @ rest \<and> n \<le> length (concat chunks)"
  show "\<exists>chunks' lg'.
               readDataFromSocket c buf n lg =
                 (None, take n (concat chunks), c\<lparr>pending := data_events chunks' @ rest\<rparr>, lg') \<and>
               (\<forall>ch\<in>set chunks'. ch \<noteq> []) \<and>
               concat chunks' = drop n (concat chunks)"
    using readLoop_accumulates [of c chunks rest buf n 0 lg] a assms
    by (simp add: readDataFromSocket_def)
next
  assume b: "pending c = data_events chunks \<and> length (concat chunks) < n"
  show "fst (readDataFromSocket c buf n lg) \<noteq> None"
    using readLoop_at_end [of c chunks buf n 0 lg] b assms
    by (auto simp: readDataFromSocket_def)
qed

theorem partial_read_completion_witness:
  "fst (readDataFromSocket
          \<lparr>pending = data_events [[1], [2], [3, 4]], at_end = Timeout, deadline_fails = False,
           close_calls = 0\<rparr> [0, 0, 0] 3 []) = None \<and>
   fst (snd (readDataFromSocket
          \<lparr>pending = data_events [[1], [2], [3, 4]], at_end = Timeout, deadline_fails = False,
           close_calls = 0\<rparr> [0, 0, 0] 3 [])) = [1, 2, 3] \<and>
   fst (readDataFromSocket
          \<lparr>pending = data_events [[1], [2]], at_end = Timeout, deadline_fails = False,
           close_calls = 0\<rparr> [0, 0, 0] 3 []) \<noteq> None"
  using partial_read_completion [of 3 "[0, 0, 0]" "[[1], [2], [3, 4]]"
          "\<lparr>pending = data_events [[1], [2], [3, 4]], at_end = Timeout, deadline_fails = False,
            close_calls = 0\<rparr>" "[]" "[]"]
        partial_read_completion [of 3 "[0, 0, 0]" "[[1], [2]]"
          "\<lparr>pending = data_events [[1], [2]], at_end = Timeout, deadline_fails = False,
            close_calls = 0\<rparr>" "[]" "[]"]
  by auto

text \<open>
  Claim C7 (abrupt close detection). The peer delivers bytes, each read before the end
  returning at least one byte and no error, and then a read reports \<^verbatim>\<open>io.EOF\<close>
  (with a last chunk \<open>d\<close>, possibly empty, or because the script has ended on a closed
  peer); fewer than \<open>n\<close> bytes were delivered in all. Then
  \<^verbatim>\<open>readDataFromSocket\<close>, asked for \<open>n\<close> bytes into a slice of length
  \<open>n\<close>, returns the error of line 43, "closed connection abruptly", and in particular
  not success. (A read that returns no byte and no error delivers nothing; what the
  reader does on it is the matter of claim C5.)
\<close>

theorem abrupt_close_detection:
  assumes "length buf = n" and "\<forall>ch\<in>set chunks. ch \<noteq> []"
  shows "(pending c = data_events chunks @ (d, Some EOF) # rest \<and>
            length (concat chunks) + length d < n \<longrightarrow>
            fst (readDataFromSocket c buf n lg) = Some ClosedAbruptly) \<and>
         (pending c = data_events chunks \<and> at_end c = EOF \<and> length (concat chunks) < n \<longrightarrow>
            fst (readDataFromSocket c buf n lg) = Some ClosedAbruptly)"
proof (intro conjI impI)
  assume a: "pending c = data_events chunks @ (d, Some EOF) # rest \<and>
            length (concat chunks) + length d < n"
  show "fst (readDataFromSocket c buf n lg) = Some ClosedAbruptly"
    using readLoop_error_event [of c chunks d EOF rest buf n 0 lg] a assms
    by (auto simp: readDataFromSocket_def)
next
  assume b: "pending c = data_events chunks \<and> at_end c = EOF \<and> length (concat chunks) < n"
  show "fst (readDataFromSocket c buf n lg) = Some ClosedAbruptly"
    using readLoop_at_end [of c chunks buf n 0 lg] b assms
    by (auto simp: readDataFromSocket_def)
qed

theorem abrupt_close_detection_witness:
  "fst (readDataFromSocket
          \<lparr>pending = data_events [[1, 2], [3]] @ ([4], Some EOF) # [], at_end = Timeout,
           deadline_fails = True, close_calls = 0\<rparr> [0, 0, 0, 0, 0] 5 []) = Some ClosedAbruptly \<and>
   fst (readDataFromSocket
          \<lparr>pending = data_events [[1, 2], [3]], at_end = EOF,
           deadline_fails = True, close_calls = 0\<rparr> [0, 0, 0, 0, 0] 5 []) = Some ClosedAbruptly"
  using abrupt_close_detection [of "[0, 0, 0, 0, 0]" 5 "[[1, 2], [3]]"
          "\<lparr>pending = data_events [[1, 2], [3]] @ ([4], Some EOF) # [], at_end = Timeout,
            deadline_fails = True, close_calls = 0\<rparr>" "[4]" "[]" "[]"]
        abrupt_close_detection [of "[0, 0, 0, 0, 0]" 5 "[[1, 2], [3]]"
          "\<lparr>pending = data_events [[1, 2], [3]], at_end = EOF,
            deadline_fails = True, close_calls = 0\<rparr>" "[]" "[]" "[]"]
  by auto

subsection \<open>The Connection Pipeline\<close>

text \<open>The definitions that a run on a given connection unfolds to.\<close>

lemmas eval_defs = readPkts_def readPkts_loop.simps readPkts_iter_def readDataFromSocket_def readLoop.simps
  read_pass_def conn_Read_def check_header_def Uint32_def mk_frame_def send_or_discard_def
  close_and_return_def conn_Close_def chan_close_def slice_ok_def totalHdrLen_def hdrData_def
  payloadMarkerLen_def compressFlagByteLen_def maxFrameBytes_def kilobyte_def IsTimeout_def make_chan_def
  data_events_def Let_def

text \<open>
  Claim C9 (teardown exactly once). A pass of the loop of \<^verbatim>\<open>readPkts\<close> that goes
  on to the next pass calls neither \<^verbatim>\<open>clientConn.Close\<close> nor
  \<^verbatim>\<open>close(pktUncompressChannel)\<close>; a pass that ends the loop (a failed read of the
  header or of the payload, a bad magic, an oversized length) calls each of them once. So
  a run of the loop that returns has called each exactly once. With the buffer as
  \<^verbatim>\<open>readPkts\<close> allocates it, at least a header long, the loop does return on
  every script of the peer (a buffer shorter than a header makes the first
  \<^verbatim>\<open>dataBuff[0:totalHdrLen]\<close> panic, which is none of the paths of the claim).
\<close>

theorem teardown_exactly_once:
  "(readPkts_iter cfg s = Continue s' \<longrightarrow>
      close_calls (clientConn s') = close_calls (clientConn s) \<and>
      close_count (pktUncompressChannel s') = close_count (pktUncompressChannel s)) \<and>
   (readPkts_iter cfg s = Stop s' \<longrightarrow>
      close_calls (clientConn s') = close_calls (clientConn s) + 1 \<and>
      close_count (pktUncompressChannel s') = close_count (pktUncompressChannel s) + 1) \<and>
   (readPkts_loop cfg s = Returned s' \<longrightarrow>
      close_calls (clientConn s') = close_calls (clientConn s) + 1 \<and>
      close_count (pktUncompressChannel s') = close_count (pktUncompressChannel s) + 1) \<and>
   (length (dataBuff s) = nat (maxFrameBytes cfg) \<and> int totalHdrLen \<le> maxFrameBytes cfg \<longrightarrow>
      (\<exists>s''. readPkts_loop cfg s = Returned s''))"
  using readPkts_iter_Continue_open(1,2) [of cfg s s'] readPkts_iter_Stop_closes(1,2) [of cfg s s']
    readPkts_loop_closes [of cfg s s'] readPkts_loop_returns [of s cfg]
  by blast

theorem teardown_exactly_once_witness:
  "readPkts_iter \<lparr>CompressBlockSize = 1, AuthEnable = False\<rparr>
     \<lparr>clientConn = \<lparr>pending = [([0xde, 0xef, 0xec, 0xe0, 2, 0, 0, 0, 1, 7, 8], None)],
                    at_end = EOF, deadline_fails = False, close_calls = 0\<rparr>,
      dataBuff = replicate 1024 0, pktUncompressChannel = make_chan 100,
      sizeChannel = make_chan 100, logs = []\<rparr>
   = Continue
     \<lparr>clientConn = \<lparr>pending = [], at_end = EOF, deadline_fails = False, close_calls = 0\<rparr>,
      dataBuff = [0xde, 0xef, 0xec, 0xe0, 2, 0, 0, 0, 1, 7, 8] @ replicate 1013 0,
      pktUncompressChannel =
        \<lparr>items = [\<lparr>Data = [7, 8], IsCompressed = True\<rparr>], capacity = 100, close_count = 0\<rparr>,
      sizeChannel = \<lparr>items = [11], capacity = 100, close_count = 0\<rparr>, logs = []\<rparr> \<and>
   readPkts_iter \<lparr>CompressBlockSize = 1, AuthEnable = False\<rparr>
     \<lparr>clientConn = \<lparr>pending = [], at_end = EOF, deadline_fails = False, close_calls = 0\<rparr>,
      dataBuff = [0xde, 0xef, 0xec, 0xe0, 2, 0, 0, 0, 1, 7, 8] @ replicate 1013 0,
      pktUncompressChannel =
        \<lparr>items = [\<lparr>Data = [7, 8], IsCompressed = True\<rparr>], capacity = 100, close_count = 0\<rparr>,
      sizeChannel = \<lparr>items = [11], capacity = 100, close_count = 0\<rparr>, logs = []\<rparr>
   = Stop
     \<lparr>clientConn = \<lparr>pending = [], at_end = EOF, deadline_fails = False, close_calls = 1\<rparr>,
      dataBuff = [0xde, 0xef, 0xec, 0xe0, 2, 0, 0, 0, 1, 7, 8] @ replicate 1013 0,
      pktUncompressChannel =
        \<lparr>items = [\<lparr>Data = [7, 8], IsCompressed = True\<rparr>], capacity = 100, close_count = 1\<rparr>,
      sizeChannel = \<lparr>items = [11], capacity = 100, close_count = 0\<rparr>,
      logs = [LogUnableToRead ClosedAbruptly]\<rparr> \<and>
   readPkts_loop \<lparr>CompressBlockSize = 1, AuthEnable = False\<rparr>
     \<lparr>clientConn = \<lparr>pending = [([0xde, 0xef, 0xec, 0xe0, 2, 0, 0, 0, 1, 7, 8], None)],
                    at_end = EOF, deadline_fails = False, close_calls = 0\<rparr>,
      dataBuff = replicate 1024 0, pktUncompressChannel = make_chan 100,
      sizeChannel = make_chan 100, logs = []\<rparr>
   = Returned
     \<lparr>clientConn = \<lparr>pending = [], at_end = EOF, deadline_fails = False, close_calls = 1\<rparr>,
      dataBuff = [0xde, 0xef, 0xec, 0xe0, 2, 0, 0, 0, 1, 7, 8] @ replicate 1013 0,
      pktUncompressChannel =
        \<lparr>items = [\<lparr>Data = [7, 8], IsCompressed = True\<rparr>], capacity = 100, close_count = 1\<rparr>,
      sizeChannel = \<lparr>items = [11], capacity = 100, close_count = 0\<rparr>,
      logs = [LogUnableToRead ClosedAbruptly]\<rparr>"
  (is "?it1 = Continue ?s1 \<and> ?it2 = Stop ?s2 \<and> ?lp = Returned ?s2")
proof -
  let ?cfg = "\<lparr>CompressBlockSize = 1, AuthEnable = False\<rparr>"
  let ?s0 = "\<lparr>clientConn = \<lparr>pending = [([0xde, 0xef, 0xec, 0xe0, 2, 0, 0, 0, 1, 7, 8], None)],
                    at_end = EOF, deadline_fails = False, close_calls = 0\<rparr>,
      dataBuff = replicate 1024 0, pktUncompressChannel = make_chan 100,
      sizeChannel = make_chan 100, logs = []\<rparr>"
  have a: "?it1 = Continue ?s1" by (simp add: eval_defs)
  have b: "?it2 = Stop ?s2" by (simp add: eval_defs)
  have c: "?lp = Returned ?s2"
    by (subst readPkts_loop.simps, simp only: a step.case, subst readPkts_loop.simps, simp only: b step.case)
  have "close_calls (clientConn ?s1) = close_calls (clientConn ?s0)"
    and "close_calls (clientConn ?s2) = close_calls (clientConn ?s1) + 1"
    and "close_count (pktUncompressChannel ?s2) = close_count (pktUncompressChannel ?s0) + 1"
    using teardown_exactly_once [of ?cfg ?s0 ?s1] teardown_exactly_once [of ?cfg ?s1 ?s2]
      teardown_exactly_once [of ?cfg ?s0 ?s2] a b c
    by blast+
  then show ?thesis using a b c by simp
qed

text \<open>
  Claim C8 (backpressure: drop, not block). The push \<^verbatim>\<open>readPkts\<close> uses for the
  frame queue and for the size queue is the \<^verbatim>\<open>select\<close> with a
  \<^verbatim>\<open>default\<close> branch. On a full channel it returns at once with the channel as it
  was, the new item dropped, and one more log line. A channel that starts within its
  capacity stays within it, and the capacity never changes: after one push, after any
  interleaving of such pushes with the consumer's receives, and at the end of any run of
  \<^verbatim>\<open>readPkts\<close>, however many frames the peer sent. In a pass of
  \<^verbatim>\<open>readPkts\<close> that finds the frame queue (the size queue) full, that queue is
  unchanged and the drop is logged. The statement is for channels of any item type and
  capacity, which covers the output queue of capacity \<^verbatim>\<open>maxNumPkts*10\<close> made in
  \<^verbatim>\<open>StartReceiver\<close> as far as its producer pushes the same way; that producer,
  \<^verbatim>\<open>decompressPkts\<close>, is declared in another file of the package.
\<close>

theorem backpressure_drop_not_block:
  "(capacity ch \<le> length (items ch) \<longrightarrow>
      send_or_discard ch x full_msg lg = (ch, lg @ [full_msg])) \<and>
   (length (items ch) \<le> capacity ch \<longrightarrow>
      length (items (fst (send_or_discard ch x full_msg lg))) \<le> capacity ch \<and>
      capacity (fst (send_or_discard ch x full_msg lg)) = capacity ch \<and>
      length (items (fst (run_ops ops full_msg (ch, lg)))) \<le> capacity ch \<and>
      capacity (fst (run_ops ops full_msg (ch, lg))) = capacity ch) \<and>
   (readPkts_iter cfg s = Continue s' \<and>
    capacity (pktUncompressChannel s) \<le> length (items (pktUncompressChannel s)) \<longrightarrow>
      pktUncompressChannel s' = pktUncompressChannel s \<and>
      LogUncompressQueueFull \<in> set (logs s')) \<and>
   (readPkts_iter cfg s = Continue s' \<and>
    capacity (sizeChannel s) \<le> length (items (sizeChannel s)) \<longrightarrow>
      sizeChannel s' = sizeChannel s \<and> last (logs s') = LogSizeQueueFull) \<and>
   (readPkts_loop cfg s = Returned s'' \<and>
    length (items (pktUncompressChannel s)) \<le> capacity (pktUncompressChannel s) \<and>
    length (items (sizeChannel s)) \<le> capacity (sizeChannel s) \<longrightarrow>
      length (items (pktUncompressChannel s'')) \<le> capacity (pktUncompressChannel s) \<and>
      length (items (sizeChannel s'')) \<le> capacity (sizeChannel s) \<and>
      capacity (pktUncompressChannel s'') = capacity (pktUncompressChannel s) \<and>
      capacity (sizeChannel s'') = capacity (sizeChannel s))"
proof (intro conjI impI)
  show "send_or_discard ch x full_msg lg = (ch, lg @ [full_msg])"
    if "capacity ch \<le> length (items ch)"
    using that by (simp add: send_or_discard_def)
next
  assume b: "length (items ch) \<le> capacity ch"
  show "length (items (fst (send_or_discard ch x full_msg lg))) \<le> capacity ch"
    using b by (rule send_or_discard_bounded)
  show "capacity (fst (send_or_discard ch x full_msg lg)) = capacity ch"
    by (rule send_or_discard_frame)
  show "length (items (fst (run_ops ops full_msg (ch, lg)))) \<le> capacity ch"
    and "capacity (fst (run_ops ops full_msg (ch, lg))) = capacity ch"
    using run_ops_bounded [of "(ch, lg)" ops full_msg] b by simp_all
next
  assume c: "readPkts_iter cfg s = Continue s' \<and>
    capacity (pktUncompressChannel s) \<le> length (items (pktUncompressChannel s))"
  show "pktUncompressChannel s' = pktUncompressChannel s"
    and "LogUncompressQueueFull \<in> set (logs s')"
    using readPkts_iter_Continue_full(1) [of cfg s s'] c by simp_all
next
  assume d: "readPkts_iter cfg s = Continue s' \<and>
    capacity (sizeChannel s) \<le> length (items (sizeChannel s))"
  show "sizeChannel s' = sizeChannel s" and "last (logs s') = LogSizeQueueFull"
    using readPkts_iter_Continue_full(2) [of cfg s s'] d by simp_all
next
  assume e: "readPkts_loop cfg s = Returned s'' \<and>
    length (items (pktUncompressChannel s)) \<le> capacity (pktUncompressChannel s) \<and>
    length (items (sizeChannel s)) \<le> capacity (sizeChannel s)"
  show "length (items (pktUncompressChannel s'')) \<le> capacity (pktUncompressChannel s)"
    and "length (items (sizeChannel s'')) \<le> capacity (sizeChannel s)"
    and "capacity (pktUncompressChannel s'') = capacity (pktUncompressChannel s)"
    and "capacity (sizeChannel s'') = capacity (sizeChannel s)"
    using readPkts_loop_bounded [of cfg s s''] e by simp_all
qed

theorem backpressure_drop_not_block_witness:
  "send_or_discard \<lparr>items = [10, 20 :: nat], capacity = 2, close_count = 0\<rparr> 30 LogSizeQueueFull []
     = (\<lparr>items = [10, 20], capacity = 2, close_count = 0\<rparr>, [LogSizeQueueFull]) \<and>
   length (items (fst (run_ops [Push 30, Pop, Push 40, Push 50] LogSizeQueueFull
     (\<lparr>items = [10, 20 :: nat], capacity = 2, close_count = 0\<rparr>, [])))) \<le> 2 \<and>
   readPkts_iter \<lparr>CompressBlockSize = 1, AuthEnable = False\<rparr>
     \<lparr>clientConn = \<lparr>pending = [([0xde, 0xef, 0xec, 0xe0, 1, 0, 0, 0, 0, 7], None)],
                    at_end = EOF, deadline_fails = False, close_calls = 0\<rparr>,
      dataBuff = replicate 1024 0,
      pktUncompressChannel = \<lparr>items = [\<lparr>Data = [5], IsCompressed = False\<rparr>], capacity = 1, close_count = 0\<rparr>,
      sizeChannel = \<lparr>items = [10], capacity = 1, close_count = 0\<rparr>, logs = []\<rparr>
   = Continue
     \<lparr>clientConn = \<lparr>pending = [], at_end = EOF, deadline_fails = False, close_calls = 0\<rparr>,
      dataBuff = [0xde, 0xef, 0xec, 0xe0, 1, 0, 0, 0, 0, 7] @ replicate 1014 0,
      pktUncompressChannel = \<lparr>items = [\<lparr>Data = [5], IsCompressed = False\<rparr>], capacity = 1, close_count = 0\<rparr>,
      sizeChannel = \<lparr>items = [10], capacity = 1, close_count = 0\<rparr>,
      logs = [LogUncompressQueueFull, LogSizeQueueFull]\<rparr>"
  (is "?a \<and> ?b \<and> ?it = Continue ?s1")
proof -
  let ?ch = "\<lparr>items = [10, 20 :: nat], capacity = 2, close_count = 0\<rparr>"
  let ?cfg = "\<lparr>CompressBlockSize = 1, AuthEnable = False\<rparr>"
  let ?s0 = "\<lparr>clientConn = \<lparr>pending = [([0xde, 0xef, 0xec, 0xe0, 1, 0, 0, 0, 0, 7], None)],
                    at_end = EOF, deadline_fails = False, close_calls = 0\<rparr>,
      dataBuff = replicate 1024 0,
      pktUncompressChannel = \<lparr>items = [\<lparr>Data = [5], IsCompressed = False\<rparr>], capacity = 1, close_count = 0\<rparr>,
      sizeChannel = \<lparr>items = [10], capacity = 1, close_count = 0\<rparr>, logs = []\<rparr>"
  note T = backpressure_drop_not_block [of ?ch 30 LogSizeQueueFull "[]"
            "[Push 30, Pop, Push 40, Push 50]" ?cfg ?s0 ?s1 ?s1]
  have full: "capacity ?ch \<le> length (items ?ch)" and bnd: "length (items ?ch) \<le> capacity ?ch"
    by simp_all
  have it: "?it = Continue ?s1" by (simp add: eval_defs)
  have "send_or_discard ?ch 30 LogSizeQueueFull [] = (?ch, [] @ [LogSizeQueueFull])"
    using T full by blast
  then have a: ?a by simp
  have "length (items (fst (run_ops [Push 30, Pop, Push 40, Push 50] LogSizeQueueFull (?ch, []))))
          \<le> capacity ?ch"
    using T bnd by blast
  then have b: ?b by simp
  have "pktUncompressChannel ?s1 = pktUncompressChannel ?s0 \<and>
      LogUncompressQueueFull \<in> set (logs ?s1)"
    using T it by simp
  then show ?thesis using a b it by (intro conjI)
qed

text \<open>
  Claim C10 (slices stay inside the buffer). With the buffer as long as
  \<^verbatim>\<open>readPkts\<close> made it, \<^verbatim>\<open>CompressBlockSize*kilobyte\<close> bytes, and a
  declared length \<open>l\<close> that passed the check of line 86, every slice and index of a
  pass of the loop is in range: \<^verbatim>\<open>dataBuff[0:totalHdrLen]\<close>,
  \<^verbatim>\<open>dataBuff[0:len(hdrData)]\<close>, \<^verbatim>\<open>dataBuff[len(hdrData):]\<close> with its four
  bytes for \<^verbatim>\<open>Uint32\<close>, the payload slice
  \<^verbatim>\<open>dataBuff[totalHdrLen:totalHdrLen+l]\<close> and the flag byte at index 8. No pass
  on such a buffer panics.
\<close>

theorem buffer_slices_in_bounds:
  assumes "length buf = nat (maxFrameBytes cfg)"
    and "\<not> uint (l :: 32 word) > maxFrameBytes cfg - int totalHdrLen"
  shows "slice_ok 0 totalHdrLen buf \<and>
         slice_ok 0 (length hdrData) buf \<and>
         slice_ok (length hdrData) (length buf) buf \<and>
         4 \<le> length (drop (length hdrData) buf) \<and>
         slice_ok totalHdrLen (totalHdrLen + unat l) buf \<and>
         index_ok (length hdrData + payloadMarkerLen) buf \<and>
         (\<forall>s. dataBuff s = buf \<longrightarrow> readPkts_iter cfg s \<noteq> Panic)"
proof -
  have "unat l = nat (uint l)" and "0 \<le> uint l"
    by simp_all
  then have bound: "totalHdrLen + unat l \<le> length buf" and hdr: "int totalHdrLen \<le> maxFrameBytes cfg"
    using assms by linarith+
  have "readPkts_iter cfg s \<noteq> Panic" if "dataBuff s = buf" for s
    using readPkts_iter_no_panic [of s cfg] that assms(1) hdr by simp
  then show ?thesis
    using bound by (simp add: slice_ok_def index_ok_def totalHdrLen_eq hdrData_def payloadMarkerLen_def)
qed

theorem buffer_slices_in_bounds_witness:
  "slice_ok 0 totalHdrLen (replicate 1024 (0 :: byte)) \<and>
   slice_ok totalHdrLen (totalHdrLen + unat (1015 :: 32 word)) (replicate 1024 (0 :: byte)) \<and>
   index_ok (length hdrData + payloadMarkerLen) (replicate 1024 (0 :: byte))"
  using buffer_slices_in_bounds [of "replicate 1024 0" "\<lparr>CompressBlockSize = 1, AuthEnable = False\<rparr>" 1015]
  by (simp add: maxFrameBytes_def kilobyte_def totalHdrLen_eq)

text \<open>
  Claim C1 (header round trip). The peer sends, in non-empty chunks cut anywhere, the
  four magic bytes, the 4-byte little-endian encoding of the length of \<open>P\<close>, the flag
  byte \<open>f\<close> and \<open>P\<close>, possibly followed by more (\<open>extra\<close>). \<open>P\<close> is at most
  \<^verbatim>\<open>CompressBlockSize*kilobyte - 9\<close> bytes long, and its length fits the four
  bytes of the length field. Then a pass of \<^verbatim>\<open>readPkts\<close>, on the buffer as
  allocated, decodes the frame whose \<^verbatim>\<open>Data\<close> is exactly \<open>P\<close> and whose
  \<^verbatim>\<open>IsCompressed\<close> holds iff \<open>f\<close> is not zero, and offers it to the frame
  queue, where it is the newest item if the queue had room; the pass leaves on the
  connection exactly what followed the frame.
\<close>

theorem header_round_trip:
  assumes "length (dataBuff s) = nat (maxFrameBytes cfg)"
    and "int (length P) \<le> maxFrameBytes cfg - 9"
    and "length P < 2 ^ 32"
    and "pending (clientConn s) = data_events chunks @ rest"
    and "\<forall>ch\<in>set chunks. ch \<noteq> []"
    and "concat chunks = encode_frame f P @ extra"
  shows "\<exists>s' lg'. readPkts_iter cfg s = Continue s' \<and>
              pktUncompressChannel s' =
                fst (send_or_discard (pktUncompressChannel s)
                       \<lparr>Data = P, IsCompressed = (f \<noteq> 0)\<rparr> LogUncompressQueueFull lg') \<and>
              (length (items (pktUncompressChannel s)) < capacity (pktUncompressChannel s) \<longrightarrow>
                 items (pktUncompressChannel s') =
                   items (pktUncompressChannel s) @ [\<lparr>Data = P, IsCompressed = (f \<noteq> 0)\<rparr>]) \<and>
              stream_bytes (pending (clientConn s')) = extra @ stream_bytes rest"
proof -
  have fits: "int (length P) \<le> maxFrameBytes cfg - int totalHdrLen"
    using assms(2) by (simp add: totalHdrLen_eq)
  from readPkts_iter_frame [OF assms(1) fits assms(3,4,5,6)]
  obtain chunks' lg' where
    it: "readPkts_iter cfg s =
             Continue (s\<lparr>clientConn := (clientConn s)\<lparr>pending := data_events chunks' @ rest\<rparr>,
                          dataBuff := encode_frame f P @ drop (totalHdrLen + length P) (dataBuff s),
                          pktUncompressChannel :=
                            fst (send_or_discard (pktUncompressChannel s)
                                   \<lparr>Data = P, IsCompressed = (f \<noteq> 0)\<rparr> LogUncompressQueueFull lg'),
                          sizeChannel :=
                            fst (send_or_discard (sizeChannel s) (totalHdrLen + length P) LogSizeQueueFull
                                   (snd (send_or_discard (pktUncompressChannel s)
                                      \<lparr>Data = P, IsCompressed = (f \<noteq> 0)\<rparr> LogUncompressQueueFull lg'))),
                          logs :=
                            snd (send_or_discard (sizeChannel s) (totalHdrLen + length P) LogSizeQueueFull
                                   (snd (send_or_discard (pktUncompressChannel s)
                                      \<lparr>Data = P, IsCompressed = (f \<noteq> 0)\<rparr> LogUncompressQueueFull lg')))\<rparr>)"
    and cc: "concat chunks' = extra"
    by blast
  let ?q = "send_or_discard (pktUncompressChannel s)
              \<lparr>Data = P, IsCompressed = (f \<noteq> 0)\<rparr> LogUncompressQueueFull lg'"
  let ?z = "send_or_discard (sizeChannel s) (totalHdrLen + length P) LogSizeQueueFull (snd ?q)"
  let ?s' = "s\<lparr>clientConn := (clientConn s)\<lparr>pending := data_events chunks' @ rest\<rparr>,
               dataBuff := encode_frame f P @ drop (totalHdrLen + length P) (dataBuff s),
               pktUncompressChannel := fst ?q, sizeChannel := fst ?z, logs := snd ?z\<rparr>"
  have a: "readPkts_iter cfg s = Continue ?s'"
    by (rule it)
  have b: "pktUncompressChannel ?s' = fst ?q"
    by simp
  have c: "length (items (pktUncompressChannel s)) < capacity (pktUncompressChannel s) \<longrightarrow>
             items (pktUncompressChannel ?s') =
               items (pktUncompressChannel s) @ [\<lparr>Data = P, IsCompressed = (f \<noteq> 0)\<rparr>]"
    by (simp add: send_or_discard_def)
  have d: "stream_bytes (pending (clientConn ?s')) = extra @ stream_bytes rest"
    using cc by (simp add: stream_bytes_data_events)
  show ?thesis
    by (rule exI [of _ ?s'], rule exI [of _ lg'], intro conjI) (rule a b c d)+
qed

theorem header_round_trip_witness:
  "\<exists>s'. readPkts_iter \<lparr>CompressBlockSize = 1, AuthEnable = False\<rparr>
          \<lparr>clientConn =
             \<lparr>pending = data_events [[0xde], [0xef, 0xec, 0xe0, 3, 0], [0, 0, 1, 97], [98, 99, 0xde]],
              at_end = EOF, deadline_fails = False, close_calls = 0\<rparr>,
           dataBuff = replicate 1024 0, pktUncompressChannel = make_chan 100,
           sizeChannel = make_chan 100, logs = []\<rparr> = Continue s' \<and>
        items (pktUncompressChannel s') = [\<lparr>Data = [97, 98, 99], IsCompressed = True\<rparr>] \<and>
        stream_bytes (pending (clientConn s')) = [0xde]"
  using header_round_trip [of
          "\<lparr>clientConn =
             \<lparr>pending = data_events [[0xde], [0xef, 0xec, 0xe0, 3, 0], [0, 0, 1, 97], [98, 99, 0xde]],
              at_end = EOF, deadline_fails = False, close_calls = 0\<rparr>,
           dataBuff = replicate 1024 0, pktUncompressChannel = make_chan 100,
           sizeChannel = make_chan 100, logs = []\<rparr>"
          "\<lparr>CompressBlockSize = 1, AuthEnable = False\<rparr>" "[97, 98, 99]"
          "[[0xde], [0xef, 0xec, 0xe0, 3, 0], [0, 0, 1, 97], [98, 99, 0xde]]" "[]" 1 "[0xde]"]
  by (simp add: maxFrameBytes_def kilobyte_def encode_frame_def le32_def make_chan_def stream_bytes_def)
     blast

text \<open>
  Claim C2 (header validation). For a 9-byte header \<open>h\<close> at the start of the buffer,
  the checks of lines 78 to 91 give: a protocol violation if the first four bytes are not
  \<^verbatim>\<open>DE EF EC E0\<close>, whatever the other bytes are; else a protocol violation if the
  little-endian number at offsets 4 to 7 exceeds \<^verbatim>\<open>CompressBlockSize*kilobyte - 9\<close>;
  else success with that number as the length, and the flag of the frame is whether byte 8
  is not zero. On a violation the pass of \<^verbatim>\<open>readPkts\<close> ends the loop with the
  connection closed as the read of the header left it, so no read of a payload was
  attempted, and with the frame queue closed.
\<close>

theorem header_validation:
  assumes "length h = totalHdrLen"
  shows "(take 4 h \<noteq> [0xDE, 0xEF, 0xEC, 0xE0] \<longrightarrow> check_header cfg (h @ xs) = IllegalData) \<and>
         (take 4 h = [0xDE, 0xEF, 0xEC, 0xE0] \<and> int (declared_length h) > maxFrameBytes cfg - 9 \<longrightarrow>
            check_header cfg (h @ xs) = InvalidLength (word_of_nat (declared_length h))) \<and>
         (take 4 h = [0xDE, 0xEF, 0xEC, 0xE0] \<and> int (declared_length h) \<le> maxFrameBytes cfg - 9 \<longrightarrow>
            check_header cfg (h @ xs) = HeaderOK (word_of_nat (declared_length h)) \<and>
            unat (word_of_nat (declared_length h) :: 32 word) = declared_length h \<and>
            IsCompressed (mk_frame (h @ ys) n) = (h ! 8 \<noteq> 0)) \<and>
         (totalHdrLen \<le> length (dataBuff s) \<and>
          readDataFromSocket (clientConn s) (take totalHdrLen (dataBuff s)) totalHdrLen (logs s)
            = (None, h, c1, lg1) \<and>
          (take 4 h \<noteq> [0xDE, 0xEF, 0xEC, 0xE0] \<or> int (declared_length h) > maxFrameBytes cfg - 9) \<longrightarrow>
            (\<exists>s'. readPkts_iter cfg s = Stop s' \<and> clientConn s' = conn_Close c1 \<and>
                  pktUncompressChannel s' = chan_close (pktUncompressChannel s) \<and>
                  sizeChannel s' = sizeChannel s \<and>
                  dataBuff s' = h @ drop totalHdrLen (dataBuff s)))"
proof (intro conjI impI)
  show "check_header cfg (h @ xs) = IllegalData" if "take 4 h \<noteq> [0xDE, 0xEF, 0xEC, 0xE0]"
    using that by (simp add: check_header_cases [OF assms])
next
  show "check_header cfg (h @ xs) = InvalidLength (word_of_nat (declared_length h))"
    if "take 4 h = [0xDE, 0xEF, 0xEC, 0xE0] \<and> int (declared_length h) > maxFrameBytes cfg - 9"
    using that by (simp add: check_header_cases [OF assms])
next
  assume ok: "take 4 h = [0xDE, 0xEF, 0xEC, 0xE0] \<and> int (declared_length h) \<le> maxFrameBytes cfg - 9"
  show "check_header cfg (h @ xs) = HeaderOK (word_of_nat (declared_length h))"
    using ok by (simp add: check_header_cases [OF assms])
  show "unat (word_of_nat (declared_length h) :: 32 word) = declared_length h"
    by (rule Uint32_declared_length(3) [OF assms])
  show "IsCompressed (mk_frame (h @ ys) n) = (h ! 8 \<noteq> 0)"
    using assms by (simp add: mk_frame_def hdrData_def payloadMarkerLen_def nth_append totalHdrLen_eq)
next
  assume v: "totalHdrLen \<le> length (dataBuff s) \<and>
          readDataFromSocket (clientConn s) (take totalHdrLen (dataBuff s)) totalHdrLen (logs s)
            = (None, h, c1, lg1) \<and>
          (take 4 h \<noteq> [0xDE, 0xEF, 0xEC, 0xE0] \<or> int (declared_length h) > maxFrameBytes cfg - 9)"
  then have "check_header cfg (h @ drop totalHdrLen (dataBuff s)) = IllegalData \<or>
             check_header cfg (h @ drop totalHdrLen (dataBuff s))
               = InvalidLength (word_of_nat (declared_length h))"
    by (auto simp: check_header_cases [OF assms])
  then show "\<exists>s'. readPkts_iter cfg s = Stop s' \<and> clientConn s' = conn_Close c1 \<and>
                  pktUncompressChannel s' = chan_close (pktUncompressChannel s) \<and>
                  sizeChannel s' = sizeChannel s \<and>
                  dataBuff s' = h @ drop totalHdrLen (dataBuff s)"
    using v by (auto simp: readPkts_iter_def Let_def slice_ok_def close_and_return_def)
qed

theorem header_validation_witness:
  "check_header \<lparr>CompressBlockSize = 1, AuthEnable = False\<rparr>
     ([0xde, 0xef, 0xec, 0xe1, 3, 0, 0, 0, 0] @ [7, 7, 7]) = IllegalData \<and>
   check_header \<lparr>CompressBlockSize = 1, AuthEnable = False\<rparr>
     ([0xde, 0xef, 0xec, 0xe0, 0xf8, 3, 0, 0, 1] @ [7, 7, 7]) = InvalidLength 1016 \<and>
   check_header \<lparr>CompressBlockSize = 1, AuthEnable = False\<rparr>
     ([0xde, 0xef, 0xec, 0xe0, 0xf7, 3, 0, 0, 1] @ [7, 7, 7]) = HeaderOK 1015 \<and>
   IsCompressed (mk_frame ([0xde, 0xef, 0xec, 0xe0, 0xf7, 3, 0, 0, 1] @ [7, 7, 7]) 3) \<and>
   readPkts_iter \<lparr>CompressBlockSize = 1, AuthEnable = False\<rparr>
     \<lparr>clientConn = \<lparr>pending = [([0xde, 0xef, 0xec, 0xe0, 0xf8, 3, 0, 0, 1], None), ([7, 7, 7], None)],
                    at_end = EOF, deadline_fails = False, close_calls = 0\<rparr>,
      dataBuff = replicate 1024 0, pktUncompressChannel = make_chan 100,
      sizeChannel = make_chan 100, logs = []\<rparr>
   = Stop
     \<lparr>clientConn = \<lparr>pending = [([7, 7, 7], None)], at_end = EOF, deadline_fails = False,
                    close_calls = 1\<rparr>,
      dataBuff = [0xde, 0xef, 0xec, 0xe0, 0xf8, 3, 0, 0, 1] @ replicate 1015 0,
      pktUncompressChannel = \<lparr>items = [], capacity = 100, close_count = 1\<rparr>,
      sizeChannel = make_chan 100, logs = [LogInvalidLength 1016]\<rparr>"
  (is "?A \<and> ?B \<and> ?C \<and> ?D \<and> ?E")
proof -
  let ?cfg = "\<lparr>CompressBlockSize = 1, AuthEnable = False\<rparr>"
  let ?bad = "[0xde, 0xef, 0xec, 0xe1, 3, 0, 0, 0, 0] :: byte list"
  let ?big = "[0xde, 0xef, 0xec, 0xe0, 0xf8, 3, 0, 0, 1] :: byte list"
  let ?ok = "[0xde, 0xef, 0xec, 0xe0, 0xf7, 3, 0, 0, 1] :: byte list"
  let ?conn0 = "\<lparr>pending = [(?big, None), ([7, 7, 7], None)],
                    at_end = EOF, deadline_fails = False, close_calls = 0\<rparr>"
  let ?conn1 = "\<lparr>pending = [([7, 7, 7 :: byte], None)], at_end = EOF, deadline_fails = False,
                    close_calls = 0\<rparr>"
  let ?s0 = "\<lparr>clientConn = ?conn0,
      dataBuff = replicate 1024 0, pktUncompressChannel = make_chan 100,
      sizeChannel = make_chan 100, logs = []\<rparr>"
  have m: "maxFrameBytes ?cfg = 1024"
    by (simp add: maxFrameBytes_def kilobyte_def)
  have a: ?A
    using header_validation [of ?bad ?cfg "[7, 7, 7]" "[]" 0 ?s0 ?conn1 "[]"]
    by (simp add: totalHdrLen_eq)
  have b: ?B
    using header_validation [of ?big ?cfg "[7, 7, 7]" "[]" 0 ?s0 ?conn1 "[]"]
    by (simp add: totalHdrLen_eq declared_length_def m)
  have c: ?C and d: ?D
    using header_validation [of ?ok ?cfg "[7, 7, 7]" "[7, 7, 7]" 3 ?s0 ?conn1 "[]"]
    by (simp_all add: totalHdrLen_eq declared_length_def m)
  have rd: "readDataFromSocket (clientConn ?s0) (take totalHdrLen (dataBuff ?s0)) totalHdrLen (logs ?s0)
              = (None, ?big, ?conn1, [])"
    by (simp add: readDataFromSocket_def readLoop.simps read_pass_def conn_Read_def Let_def
          totalHdrLen_eq)
  have "\<exists>s'. readPkts_iter ?cfg ?s0 = Stop s' \<and> clientConn s' = conn_Close ?conn1 \<and>
                  pktUncompressChannel s' = chan_close (pktUncompressChannel ?s0) \<and>
                  sizeChannel s' = sizeChannel ?s0 \<and>
                  dataBuff s' = ?big @ drop totalHdrLen (dataBuff ?s0)"
    using header_validation [of ?big ?cfg "[7, 7, 7]" "[]" 0 ?s0 ?conn1 "[]"] rd
    by (simp add: totalHdrLen_eq declared_length_def m)
  moreover have e0: ?E
    by (simp add: eval_defs)
  ultimately have e: ?E by simp
  show ?thesis using a b c d e by (intro conjI)
qed

text \<open>
  Claim C3 (idle timeout), as the code has it. The claim says that a read deadline
  expiring before any byte of the current read has arrived is retried and alone neither
  destroys the connection nor closes its frame queue. The code has no retry:
  \<^verbatim>\<open>readDataFromSocket\<close> returns the timeout error whenever the read is not
  complete (line 45), and \<^verbatim>\<open>readPkts\<close> spares that error only the log line
  (line 71) before it closes the connection and the frame queue and returns (lines 74 to
  76). First the claim refuted on a peer that is silent for one deadline and then sends a
  whole frame: the connection and the queue are closed, nothing is published and the frame
  is never read.
\<close>

theorem idle_timeout_counterexample:
  "transport_closes
     (readPkts \<lparr>pending = [([], Some Timeout),
                            ([0xde, 0xef, 0xec, 0xe0, 3, 0, 0, 0, 0, 97, 98, 99], None)],
                at_end = Timeout, deadline_fails = False, close_calls = 0\<rparr>
        \<lparr>CompressBlockSize = 1, AuthEnable = False\<rparr> (make_chan 100) (make_chan 100) []) = 1 \<and>
   queue_closes
     (readPkts \<lparr>pending = [([], Some Timeout),
                            ([0xde, 0xef, 0xec, 0xe0, 3, 0, 0, 0, 0, 97, 98, 99], None)],
                at_end = Timeout, deadline_fails = False, close_calls = 0\<rparr>
        \<lparr>CompressBlockSize = 1, AuthEnable = False\<rparr> (make_chan 100) (make_chan 100) []) = 1 \<and>
   published
     (readPkts \<lparr>pending = [([], Some Timeout),
                            ([0xde, 0xef, 0xec, 0xe0, 3, 0, 0, 0, 0, 97, 98, 99], None)],
                at_end = Timeout, deadline_fails = False, close_calls = 0\<rparr>
        \<lparr>CompressBlockSize = 1, AuthEnable = False\<rparr> (make_chan 100) (make_chan 100) []) = [] \<and>
   unread
     (readPkts \<lparr>pending = [([], Some Timeout),
                            ([0xde, 0xef, 0xec, 0xe0, 3, 0, 0, 0, 0, 97, 98, 99], None)],
                at_end = Timeout, deadline_fails = False, close_calls = 0\<rparr>
        \<lparr>CompressBlockSize = 1, AuthEnable = False\<rparr> (make_chan 100) (make_chan 100) [])
     = [([0xde, 0xef, 0xec, 0xe0, 3, 0, 0, 0, 0, 97, 98, 99], None)]"
  by (simp add: transport_closes_def queue_closes_def published_def unread_def eval_defs)

text \<open>
  Claim C3, amended. When the read deadline expires during the read of a header, before
  all 9 bytes have arrived (none of them or some of them), \<^verbatim>\<open>readDataFromSocket\<close>
  returns the timeout error; \<^verbatim>\<open>readPkts\<close> logs no read error for it (the log
  gains at most lines about the deadline), closes the transport handle and the frame
  queue once each, publishes nothing and returns: the timeout is terminal, there is no
  retry.
\<close>

theorem header_timeout_is_terminal:
  assumes "totalHdrLen \<le> length (dataBuff s)"
    and "pending (clientConn s) = data_events chunks @ (d, Some Timeout) # rest"
    and "\<forall>ch\<in>set chunks. ch \<noteq> []"
    and "length (concat chunks) + length d < totalHdrLen"
  shows "fst (readDataFromSocket (clientConn s) (take totalHdrLen (dataBuff s)) totalHdrLen (logs s))
           = Some ReadTimeout \<and>
         (\<exists>s'. readPkts_iter cfg s = Stop s' \<and> readPkts_loop cfg s = Returned s' \<and>
               close_calls (clientConn s') = close_calls (clientConn s) + 1 \<and>
               close_count (pktUncompressChannel s') = close_count (pktUncompressChannel s) + 1 \<and>
               pending (clientConn s') = rest \<and>
               items (pktUncompressChannel s') = items (pktUncompressChannel s) \<and>
               set (logs s') \<subseteq> set (logs s) \<union> {LogDeadline})"
proof -
  let ?buf = "take totalHdrLen (dataBuff s)"
  have "\<exists>lg'. readLoop (clientConn s) ?buf totalHdrLen 0 (logs s) =
           (Some (case Timeout of EOF \<Rightarrow> ClosedAbruptly | Timeout \<Rightarrow> ReadTimeout
                    | OtherErr \<Rightarrow> ClosedConnection OtherErr),
            take 0 ?buf @ concat chunks @ d @ drop (0 + length (concat chunks) + length d) ?buf,
            (clientConn s)\<lparr>pending := rest\<rparr>, lg') \<and> set lg' \<subseteq> set (logs s) \<union> {LogDeadline}"
    using assms by (intro readLoop_error_event) simp_all
  then obtain b' lg' where
    r: "readDataFromSocket (clientConn s) ?buf totalHdrLen (logs s) =
          (Some ReadTimeout, b', (clientConn s)\<lparr>pending := rest\<rparr>, lg')"
    and lg: "set lg' \<subseteq> set (logs s) \<union> {LogDeadline}"
    by (auto simp: readDataFromSocket_def)
  have sl: "slice_ok 0 totalHdrLen (dataBuff s)"
    using assms(1) by (simp add: slice_ok_def)
  let ?s' = "s\<lparr>clientConn := conn_Close ((clientConn s)\<lparr>pending := rest\<rparr>),
               dataBuff := b' @ drop totalHdrLen (dataBuff s),
               pktUncompressChannel := chan_close (pktUncompressChannel s), logs := lg'\<rparr>"
  have it: "readPkts_iter cfg s = Stop ?s'"
    using sl r by (simp add: readPkts_iter_def Let_def close_and_return_def IsTimeout_def)
  then have lp: "readPkts_loop cfg s = Returned ?s'"
    by (subst readPkts_loop.simps) simp
  show ?thesis
    using r it lp lg by (simp add: conn_Close_def chan_close_def)
qed

theorem header_timeout_is_terminal_witness:
  "fst (readDataFromSocket
         \<lparr>pending = data_events [[0xde, 0xef]] @ ([0xec], Some Timeout) # [([0xe0, 0, 0, 0, 0, 0], None)],
          at_end = EOF, deadline_fails = True, close_calls = 0\<rparr> (replicate 9 0) 9 []) = Some ReadTimeout \<and>
   (\<exists>s'. readPkts_loop \<lparr>CompressBlockSize = 1, AuthEnable = False\<rparr>
           \<lparr>clientConn =
              \<lparr>pending = data_events [[0xde, 0xef]] @ ([0xec], Some Timeout) # [([0xe0, 0, 0, 0, 0, 0], None)],
               at_end = EOF, deadline_fails = True, close_calls = 0\<rparr>,
            dataBuff = replicate 1024 0, pktUncompressChannel = make_chan 100,
            sizeChannel = make_chan 100, logs = []\<rparr> = Returned s' \<and>
         close_calls (clientConn s') = 1 \<and> close_count (pktUncompressChannel s') = 1 \<and>
         pending (clientConn s') = [([0xe0, 0, 0, 0, 0, 0], None)] \<and>
         set (logs s') \<subseteq> {LogDeadline})"
  using header_timeout_is_terminal [of
          "\<lparr>clientConn =
              \<lparr>pending = data_events [[0xde, 0xef]] @ ([0xec], Some Timeout) # [([0xe0, 0, 0, 0, 0, 0], None)],
               at_end = EOF, deadline_fails = True, close_calls = 0\<rparr>,
            dataBuff = replicate 1024 0, pktUncompressChannel = make_chan 100,
            sizeChannel = make_chan 100, logs = []\<rparr>"
          "[[0xde, 0xef]]" "[0xec]" "[([0xe0, 0, 0, 0, 0, 0], None)]"
          "\<lparr>CompressBlockSize = 1, AuthEnable = False\<rparr>"]
  by (simp add: totalHdrLen_eq make_chan_def) blast

text \<open>
  Claim C5 (a read of zero bytes with no error), as the code has it. The claim says that
  the success \<^verbatim>\<open>readDataFromSocket\<close> returns on such a read tells
  \<^verbatim>\<open>readPkts\<close> to stop the connection without an error, and that
  \<^verbatim>\<open>readPkts\<close> does not take the unfilled buffer for a header. The error result
  has no such signal: \<^verbatim>\<open>readPkts\<close> gets \<^verbatim>\<open>nil\<close> as after a completed read
  and goes on. First the claim refuted: after one frame, two reads of zero bytes make
  \<^verbatim>\<open>readPkts\<close> publish that frame a second time from the bytes still in the
  buffer; and on a fresh connection a first read of zero bytes ends in the log line for
  illegal data, a protocol violation.
\<close>

theorem zero_read_counterexample:
  "published
     (readPkts \<lparr>pending = [([0xde, 0xef, 0xec, 0xe0, 3, 0, 0, 0, 0, 97, 98, 99], None),
                            ([], None), ([], None)],
                at_end = EOF, deadline_fails = False, close_calls = 0\<rparr>
        \<lparr>CompressBlockSize = 1, AuthEnable = False\<rparr> (make_chan 100) (make_chan 100) [])
     = [\<lparr>Data = [97, 98, 99], IsCompressed = False\<rparr>, \<lparr>Data = [97, 98, 99], IsCompressed = False\<rparr>] \<and>
   logged
     (readPkts \<lparr>pending = [([], None)], at_end = Timeout, deadline_fails = False, close_calls = 0\<rparr>
        \<lparr>CompressBlockSize = 1, AuthEnable = False\<rparr> (make_chan 100) (make_chan 100) [])
     = [LogZeroBytesNoErr, LogIllegalData]"
  by (simp add: published_def logged_def eval_defs)

text \<open>
  Claim C5, amended. When a read returns zero bytes and no error,
  \<^verbatim>\<open>readDataFromSocket\<close> logs it and returns success at once, with the slice as
  filled so far (the chunks that came before, the rest untouched) and without reading
  further; a read into an empty slice (\<open>n = 0\<close>) is such a read. The success carries
  no signal to stop: on a frame whose declared length is 0, where the read of the payload
  is the read into the empty slice, the pass of \<^verbatim>\<open>readPkts\<close> publishes the frame
  with the empty payload, closes nothing and goes on with what follows on the connection.
  What \<^verbatim>\<open>readPkts\<close> does after such a success of the read of a header is left
  out of the amended claim.
\<close>

theorem zero_byte_read_is_plain_success:
  assumes "length buf = n" and "\<forall>ch\<in>set chunks. ch \<noteq> []"
  shows "(pending c = data_events chunks @ ([], None) # rest \<and> length (concat chunks) < n \<longrightarrow>
            (\<exists>lg'. readDataFromSocket c buf n lg =
                     (None, concat chunks @ drop (length (concat chunks)) buf,
                      c\<lparr>pending := rest\<rparr>, lg' @ [LogZeroBytesNoErr]))) \<and>
         (n = 0 \<longrightarrow>
            (\<exists>lg'. readDataFromSocket c buf n lg = (None, [], c, lg' @ [LogZeroBytesNoErr]))) \<and>
         (length (dataBuff s) = nat (maxFrameBytes cfg) \<and> 9 \<le> maxFrameBytes cfg \<and>
          pending (clientConn s) = data_events chunks @ rest \<and>
          concat chunks = encode_frame f [] @ extra \<and>
          length (items (pktUncompressChannel s)) < capacity (pktUncompressChannel s) \<longrightarrow>
            (\<exists>s'. readPkts_iter cfg s = Continue s' \<and>
                  items (pktUncompressChannel s') =
                    items (pktUncompressChannel s) @ [\<lparr>Data = [], IsCompressed = (f \<noteq> 0)\<rparr>] \<and>
                  close_calls (clientConn s') = close_calls (clientConn s) \<and>
                  close_count (pktUncompressChannel s') = close_count (pktUncompressChannel s) \<and>
                  stream_bytes (pending (clientConn s')) = extra @ stream_bytes rest))"
proof (intro conjI impI)
  assume a: "pending c = data_events chunks @ ([], None) # rest \<and> length (concat chunks) < n"
  show "\<exists>lg'. readDataFromSocket c buf n lg =
                     (None, concat chunks @ drop (length (concat chunks)) buf,
                      c\<lparr>pending := rest\<rparr>, lg' @ [LogZeroBytesNoErr])"
    using readLoop_zero_event [of c chunks rest buf n 0 lg] a assms
    by (simp add: readDataFromSocket_def)
next
  assume "n = 0"
  then show "\<exists>lg'. readDataFromSocket c buf n lg = (None, [], c, lg' @ [LogZeroBytesNoErr])"
    using assms(1) read_pass_full [of buf 0 c lg]
    by (simp add: readDataFromSocket_def readLoop.simps)
next
  assume b: "length (dataBuff s) = nat (maxFrameBytes cfg) \<and> 9 \<le> maxFrameBytes cfg \<and>
          pending (clientConn s) = data_events chunks @ rest \<and>
          concat chunks = encode_frame f [] @ extra \<and>
          length (items (pktUncompressChannel s)) < capacity (pktUncompressChannel s)"
  have fits: "int (length ([] :: byte list)) \<le> maxFrameBytes cfg - int totalHdrLen"
    using b by (simp add: totalHdrLen_eq)
  have "\<exists>chunks' lg'.
           readPkts_iter cfg s =
             Continue (s\<lparr>clientConn := (clientConn s)\<lparr>pending := data_events chunks' @ rest\<rparr>,
                          dataBuff := encode_frame f [] @ drop (totalHdrLen + length ([] :: byte list)) (dataBuff s),
                          pktUncompressChannel :=
                            fst (send_or_discard (pktUncompressChannel s)
                                   \<lparr>Data = [], IsCompressed = (f \<noteq> 0)\<rparr> LogUncompressQueueFull lg'),
                          sizeChannel :=
                            fst (send_or_discard (sizeChannel s) (totalHdrLen + length ([] :: byte list)) LogSizeQueueFull
                                   (snd (send_or_discard (pktUncompressChannel s)
                                      \<lparr>Data = [], IsCompressed = (f \<noteq> 0)\<rparr> LogUncompressQueueFull lg'))),
                          logs :=
                            snd (send_or_discard (sizeChannel s) (totalHdrLen + length ([] :: byte list)) LogSizeQueueFull
                                   (snd (send_or_discard (pktUncompressChannel s)
                                      \<lparr>Data = [], IsCompressed = (f \<noteq> 0)\<rparr> LogUncompressQueueFull lg')))\<rparr>) \<and>
           (\<forall>ch\<in>set chunks'. ch \<noteq> []) \<and> concat chunks' = extra"
  proof (rule readPkts_iter_frame [OF _ fits _ _ assms(2)])
    show "length (dataBuff s) = nat (maxFrameBytes cfg)" using b by blast
    show "length ([] :: byte list) < 2 ^ 32" by simp
    show "pending (clientConn s) = data_events chunks @ rest" using b by blast
    show "concat chunks = encode_frame f [] @ extra" using b by blast
  qed
  then obtain chunks' lg' where
    it: "readPkts_iter cfg s =
             Continue (s\<lparr>clientConn := (clientConn s)\<lparr>pending := data_events chunks' @ rest\<rparr>,
                          dataBuff := encode_frame f [] @ drop (totalHdrLen + length ([] :: byte list)) (dataBuff s),
                          pktUncompressChannel :=
                            fst (send_or_discard (pktUncompressChannel s)
                                   \<lparr>Data = [], IsCompressed = (f \<noteq> 0)\<rparr> LogUncompressQueueFull lg'),
                          sizeChannel :=
                            fst (send_or_discard (sizeChannel s) (totalHdrLen + length ([] :: byte list)) LogSizeQueueFull
                                   (snd (send_or_discard (pktUncompressChannel s)
                                      \<lparr>Data = [], IsCompressed = (f \<noteq> 0)\<rparr> LogUncompressQueueFull lg'))),
                          logs :=
                            snd (send_or_discard (sizeChannel s) (totalHdrLen + length ([] :: byte list)) LogSizeQueueFull
                                   (snd (send_or_discard (pktUncompressChannel s)
                                      \<lparr>Data = [], IsCompressed = (f \<noteq> 0)\<rparr> LogUncompressQueueFull lg')))\<rparr>)"
    and cc: "concat chunks' = extra"
    by blast
  show "\<exists>s'. readPkts_iter cfg s = Continue s' \<and>
                  items (pktUncompressChannel s') =
                    items (pktUncompressChannel s) @ [\<lparr>Data = [], IsCompressed = (f \<noteq> 0)\<rparr>] \<and>
                  close_calls (clientConn s') = close_calls (clientConn s) \<and>
                  close_count (pktUncompressChannel s') = close_count (pktUncompressChannel s) \<and>
                  stream_bytes (pending (clientConn s')) = extra @ stream_bytes rest"
    using b cc by (simp add: it send_or_discard_def stream_bytes_data_events)
qed

theorem zero_byte_read_is_plain_success_witness:
  "(\<exists>lg'. readDataFromSocket
            \<lparr>pending = data_events [[1, 2]] @ ([], None) # [([3], None)], at_end = EOF,
             deadline_fails = False, close_calls = 0\<rparr> [0, 0, 0, 0] 4 []
          = (None, [1, 2, 0, 0],
             \<lparr>pending = [([3], None)], at_end = EOF, deadline_fails = False, close_calls = 0\<rparr>,
             lg' @ [LogZeroBytesNoErr])) \<and>
   (\<exists>s'. readPkts_iter \<lparr>CompressBlockSize = 1, AuthEnable = False\<rparr>
           \<lparr>clientConn =
              \<lparr>pending = data_events [[0xde, 0xef, 0xec, 0xe0, 0, 0, 0, 0, 1, 0xde]], at_end = EOF,
               deadline_fails = False, close_calls = 0\<rparr>,
            dataBuff = replicate 1024 0, pktUncompressChannel = make_chan 100,
            sizeChannel = make_chan 100, logs = []\<rparr> = Continue s' \<and>
         items (pktUncompressChannel s') = [\<lparr>Data = [], IsCompressed = True\<rparr>] \<and>
         close_calls (clientConn s') = 0 \<and> close_count (pktUncompressChannel s') = 0 \<and>
         stream_bytes (pending (clientConn s')) = [0xde])"
  using zero_byte_read_is_plain_success [where buf = "[0, 0, 0, 0]" and n = 4 and chunks = "[[1, 2]]"
          and c = "\<lparr>pending = data_events [[1, 2]] @ ([], None) # [([3], None)], at_end = EOF,
            deadline_fails = False, close_calls = 0\<rparr>" and rest = "[([3], None)]" and lg = "[]"]
        zero_byte_read_is_plain_success [where buf = "replicate 1024 0" and n = 1024
          and chunks = "[[0xde, 0xef, 0xec, 0xe0, 0, 0, 0, 0, 1, 0xde]]" and rest = "[]"
          and s = "\<lparr>clientConn =
              \<lparr>pending = data_events [[0xde, 0xef, 0xec, 0xe0, 0, 0, 0, 0, 1, 0xde]], at_end = EOF,
               deadline_fails = False, close_calls = 0\<rparr>,
            dataBuff = replicate 1024 0, pktUncompressChannel = make_chan 100,
            sizeChannel = make_chan 100, logs = []\<rparr>"
          and cfg = "\<lparr>CompressBlockSize = 1, AuthEnable = False\<rparr>" and f = 1 and extra = "[0xde]"]
  by (simp add: maxFrameBytes_def kilobyte_def encode_frame_def le32_def make_chan_def
        stream_bytes_def)

subsection \<open>The Auth Gate\<close>

text \<open>
  Claim C4 (authentication rejected). Authentication is enabled and the handshake rejects
  the connection that \<^verbatim>\<open>Accept\<close> has just returned, in any state the accept loop
  can have reached. Then \<^verbatim>\<open>processHost\<close> makes no frame queue and starts neither
  \<^verbatim>\<open>decompressPkts\<close> nor \<^verbatim>\<open>readPkts\<close> (lines 173 to 177 do nothing when
  \<^verbatim>\<open>handleServerAuth\<close> returns false); the connection has been closed once, by
  \<^verbatim>\<open>handleServerAuth\<close> as the spec describes it, with the bytes the handshake
  left on it still unread; and whatever connections are accepted later, no
  \<^verbatim>\<open>readPkts\<close> is ever started on the rejected one, so nothing of it can reach a
  frame queue or the output.
\<close>

theorem auth_rejection_starts_nothing:
  assumes "AuthEnable cfg" and "\<not> fst (handshake hostConn)"
    and "st = accept_loop cfg handshake processHost_init earlier"
  shows "frame_queues (on_accept cfg handshake st hostConn) = frame_queues st \<and>
         goroutines (on_accept cfg handshake st hostConn) = goroutines st \<and>
         accepted (on_accept cfg handshake st hostConn)
           = accepted st @ [conn_Close (snd (handshake hostConn))] \<and>
         close_calls (conn_Close (snd (handshake hostConn)))
           = close_calls (snd (handshake hostConn)) + 1 \<and>
         pending (conn_Close (snd (handshake hostConn))) = pending (snd (handshake hostConn)) \<and>
         (\<forall>later q.
            ReadPkts (length (accepted st)) q
              \<notin> set (goroutines (accept_loop cfg handshake st (Some hostConn # later))) \<and>
            accepted (accept_loop cfg handshake st (Some hostConn # later)) ! length (accepted st)
              = conn_Close (snd (handshake hostConn)))"
proof -
  let ?st1 = "on_accept cfg handshake st hostConn"
  have rej: "?st1 = st\<lparr>accepted := accepted st @ [conn_Close (snd (handshake hostConn))]\<rparr>"
    using assms(1,2) by (rule on_accept_rejected)
  have "\<forall>i q. ReadPkts i q \<in> set (goroutines processHost_init) \<longrightarrow>
          i < length (accepted processHost_init)"
    by (simp add: processHost_init_def)
  then have bounded: "\<forall>i q. ReadPkts i q \<in> set (goroutines st) \<longrightarrow> i < length (accepted st)"
    unfolding assms(3) by (rule accept_loop_readers_bounded)
  have none: "ReadPkts (length (accepted st)) q \<notin> set (goroutines ?st1)" for q
    using bounded by (auto simp: rej)
  have lt: "length (accepted st) < length (accepted ?st1)"
    by (simp add: rej)
  have later: "ReadPkts (length (accepted st)) q
              \<notin> set (goroutines (accept_loop cfg handshake st (Some hostConn # later))) \<and>
            accepted (accept_loop cfg handshake st (Some hostConn # later)) ! length (accepted st)
              = conn_Close (snd (handshake hostConn))" for later q
    using accept_loop_old [OF lt, of cfg handshake later q] none [of q]
    by (auto simp: rej)
  show ?thesis
    using later by (simp add: rej conn_Close_def)
qed

theorem auth_rejection_starts_nothing_witness:
  "on_accept \<lparr>CompressBlockSize = 1, AuthEnable = True\<rparr> (\<lambda>c. (pending c = [], c))
     (accept_loop \<lparr>CompressBlockSize = 1, AuthEnable = True\<rparr> (\<lambda>c. (pending c = [], c)) processHost_init
        [Some \<lparr>pending = [], at_end = EOF, deadline_fails = False, close_calls = 0\<rparr>])
     \<lparr>pending = [([1], None)], at_end = EOF, deadline_fails = False, close_calls = 0\<rparr>
   = \<lparr>accepted = [\<lparr>pending = [], at_end = EOF, deadline_fails = False, close_calls = 0\<rparr>,
                  \<lparr>pending = [([1], None)], at_end = EOF, deadline_fails = False, close_calls = 1\<rparr>],
      frame_queues = [make_chan maxNumPkts], hostSizeChannel = make_chan maxNumPkts,
      goroutines = [CalculateDataSize, DecompressPkts 0, ReadPkts 0 0]\<rparr>"
  (is "on_accept ?cfg ?hs ?st ?c = ?st1")
proof -
  have st: "?st = \<lparr>accepted = [\<lparr>pending = [], at_end = EOF, deadline_fails = False, close_calls = 0\<rparr>],
      frame_queues = [make_chan maxNumPkts], hostSizeChannel = make_chan maxNumPkts,
      goroutines = [CalculateDataSize, DecompressPkts 0, ReadPkts 0 0]\<rparr>"
    by (simp add: on_accept_def handleServerAuth_def start_pipeline_def processHost_init_def Let_def)
  have "frame_queues (on_accept ?cfg ?hs ?st ?c) = frame_queues ?st \<and>
         goroutines (on_accept ?cfg ?hs ?st ?c) = goroutines ?st \<and>
         accepted (on_accept ?cfg ?hs ?st ?c) = accepted ?st @ [conn_Close (snd (?hs ?c))]"
    using auth_rejection_starts_nothing [of ?cfg ?hs ?c ?st
            "[Some \<lparr>pending = [], at_end = EOF, deadline_fails = False, close_calls = 0\<rparr>]"]
    by simp
  moreover have "hostSizeChannel (on_accept ?cfg ?hs ?st ?c) = hostSizeChannel ?st"
    by (simp add: on_accept_def handleServerAuth_def Let_def)
  ultimately show ?thesis
    unfolding st by (intro host_state.equality) (simp_all add: conn_Close_def)
qed

end
